theory Spec2Isabelle
  imports Complex_Main "HOL-Library.Word" "HOL-Library.AList" "HOL-Library.Sublist"
begin

unbundle bit_operations_syntax

section \<open>Data model of \<open>tools/build_vocabulary_tree.py\<close>\<close>

text \<open>
  The embedding follows the methods of \<open>VocabularyTreeBuilder\<close>. Python integers are
  \<open>int\<close>, list positions are \<open>nat\<close>, rows of \<open>uint8\<close> arrays are lists of
  8-bit words. Floating-point values (responses, keypoint coordinates, document
  frequencies, weights) are idealised as \<open>real\<close>. Every \<open>raise\<close> of the source
  and every exception numpy raises on the modelled paths is a value \<open>Inl e\<close>.
\<close>

datatype error = ValueError string | IndexError | ZeroDivisionError | TypeError

type_synonym descriptor = "8 word list"

text \<open>A Python \<open>Dict[int, 'v]\<close> in insertion order.\<close>

type_synonym 'v dict = "(int \<times> 'v) list"

definition dict_get :: "'v dict \<Rightarrow> int \<Rightarrow> 'v \<Rightarrow> 'v" where
  "dict_get d k dflt = (case map_of d k of None \<Rightarrow> dflt | Some v \<Rightarrow> v)"

definition dict_set :: "'v dict \<Rightarrow> int \<Rightarrow> 'v \<Rightarrow> 'v dict" where
  "dict_set d k v = AList.update k v d"

definition dict_keys :: "'v dict \<Rightarrow> int list" where
  "dict_keys d = map fst d"

text \<open>A list comprehension whose body may raise: the first exception wins.\<close>

fun mapM_err :: "('a \<Rightarrow> error + 'b) \<Rightarrow> 'a list \<Rightarrow> error + 'b list" where
  "mapM_err f [] = Inr []"
| "mapM_err f (x # xs) =
     (case f x of
        Inl e \<Rightarrow> Inl e
      | Inr y \<Rightarrow> (case mapM_err f xs of Inl e \<Rightarrow> Inl e | Inr ys \<Rightarrow> Inr (y # ys)))"

section \<open>Quantizer: \<open>quantize_descriptor\<close>\<close>

text \<open>
  \<open>descriptor ^ word\<close> on two one-dimensional \<open>uint8\<close> arrays: elementwise when the
  lengths agree, broadcast when one of them has length 1, \<open>ValueError\<close> otherwise.
\<close>

definition np_xor :: "descriptor \<Rightarrow> descriptor \<Rightarrow> error + descriptor" where
  "np_xor a b =
     (if length a = length b then Inr (map2 (\<lambda>x y. x XOR y) a b)
      else if length a = 1 then Inr (map (\<lambda>y. hd a XOR y) b)
      else if length b = 1 then Inr (map (\<lambda>x. x XOR hd b) a)
      else Inl (ValueError ''operands could not be broadcast together''))"

text \<open>\<open>int.from_bytes(bytes(a), byteorder='big')\<close>.\<close>

definition int_from_bytes_big :: "descriptor \<Rightarrow> nat" where
  "int_from_bytes_big bs = foldl (\<lambda>acc b. acc * 256 + unat b) 0 bs"

text \<open>\<open>bin(n).count('1')\<close>: the number of ones among the binary digits of \<open>n\<close>.\<close>

fun count_ones :: "nat \<Rightarrow> nat" where
  "count_ones n = (if n = 0 then 0 else n mod 2 + count_ones (n div 2))"

declare count_ones.simps [simp del]

definition hamming :: "descriptor \<Rightarrow> descriptor \<Rightarrow> error + nat" where
  "hamming descriptor word =
     (case np_xor descriptor word of
        Inl e \<Rightarrow> Inl e
      | Inr x \<Rightarrow> Inr (count_ones (int_from_bytes_big x)))"

text \<open>
  \<open>np.argmin\<close> on a one-dimensional array: the position of the first occurrence of
  the minimum, \<open>ValueError\<close> on an empty array.
\<close>

fun argmin_scan :: "nat list \<Rightarrow> nat \<Rightarrow> nat \<Rightarrow> nat \<Rightarrow> nat" where
  "argmin_scan [] i best_i best_v = best_i"
| "argmin_scan (x # xs) i best_i best_v =
     (if x < best_v then argmin_scan xs (Suc i) i x
      else argmin_scan xs (Suc i) best_i best_v)"

definition np_argmin :: "nat list \<Rightarrow> error + nat" where
  "np_argmin xs =
     (case xs of
        [] \<Rightarrow> Inl (ValueError ''attempt to get argmin of an empty sequence'')
      | x # rest \<Rightarrow> Inr (argmin_scan rest 1 0 x))"

definition quantize_descriptor :: "descriptor \<Rightarrow> descriptor list \<Rightarrow> error + int" where
  "quantize_descriptor descriptor vocabulary =
     (case mapM_err (hamming descriptor) vocabulary of
        Inl e \<Rightarrow> Inl e
      | Inr hamming_dist \<Rightarrow>
          (case np_argmin hamming_dist of
             Inl e \<Rightarrow> Inl e
           | Inr i \<Rightarrow> Inr (int i)))"

text \<open>
  The specification's wording of the metric, for comparison with \<open>hamming\<close>: the number
  of bit positions in which two descriptors of the same length differ.
\<close>

definition differing_bits :: "descriptor \<Rightarrow> descriptor \<Rightarrow> nat" where
  "differing_bits a b =
     sum_list (map2 (\<lambda>x y. length (filter (\<lambda>k. bit x k \<noteq> bit y k) [0..<8])) a b)"

section \<open>Builder state and external collaborators\<close>

text \<open>
  The attributes of \<open>VocabularyTreeBuilder\<close> that the pipeline reads and writes. The
  detector object lives in the environment below.
\<close>

record builder =
  branching_factor :: int
  levels :: int
  vocabulary_size :: int
  vocabulary :: "descriptor list option"
  idf_weights :: "real list option"
  max_features_per_target :: int

text \<open>\<open>__init__\<close>, for \<open>levels \<ge> 0\<close>.\<close>

definition init_builder :: "int \<Rightarrow> int \<Rightarrow> builder" where
  "init_builder kk lv =
     \<lparr>branching_factor = kk, levels = lv, vocabulary_size = kk ^ nat lv,
      vocabulary = None, idf_weights = None, max_features_per_target = 500\<rparr>"

text \<open>\<open>cv2.KeyPoint\<close>: the fields the builder reads.\<close>

record cv_keypoint =
  pt :: "real \<times> real"
  response :: real

text \<open>
  Warnings written to standard output (progress messages are not modelled), and the
  report \<open>main\<close> prints before \<open>sys.exit(1)\<close>.
\<close>

datatype diagnostic =
    NoFeaturesFound string
  | SkippingNoFeatures string
  | FewerDescriptorsThanVocabulary int int
  | ReducingVocabularySize int
  | ErrorReport error

text \<open>
  What the program obtains from OpenCV, scikit-learn and the file system:
  \<open>cv2.imread\<close> (\<open>None\<close> on failure), \<open>gray.shape\<close>, \<open>detectAndCompute\<close>
  (keypoints and an optional descriptor array), \<open>MiniBatchKMeans(n_clusters).fit(X).cluster_centers_\<close>,
  the quality heuristics of \<open>_compute_image_metadata\<close>, and the outcome of writing the
  database file.
\<close>

record ('img, 'meta) env =
  imread :: "string \<Rightarrow> 'img option"
  gray_shape :: "'img \<Rightarrow> nat \<times> nat"
  detectAndCompute :: "'img \<Rightarrow> cv_keypoint list \<times> descriptor list option"
  compute_image_metadata :: "'img \<Rightarrow> (real \<times> real) list \<Rightarrow> cv_keypoint list \<Rightarrow> 'meta"
  kmeans_fit :: "int \<Rightarrow> real list list \<Rightarrow> error + real list list"
  write_database :: "string \<Rightarrow> error + unit"

section \<open>numpy indexing\<close>

text \<open>
  An integer index into an axis of length \<open>n\<close>: negative indices count from the end,
  anything outside \<open>[-n, n)\<close> raises \<open>IndexError\<close> (here \<open>None\<close>).
\<close>

definition np_index :: "nat \<Rightarrow> int \<Rightarrow> nat option" where
  "np_index n i =
     (if 0 \<le> i \<and> i < int n then Some (nat i)
      else if - int n \<le> i \<and> i < 0 then Some (nat (i + int n))
      else None)"

text \<open>
  \<open>a[np.array(idxs)]\<close>: an empty Python list becomes a \<open>float64\<close> array, which is
  refused as an index; positions outside the array raise as well.
\<close>

definition np_take :: "'a list \<Rightarrow> nat list \<Rightarrow> error + 'a list" where
  "np_take a idxs =
     (if idxs = [] then Inl IndexError
      else if list_all (\<lambda>i. i < length a) idxs then Inr (map (\<lambda>i. a ! i) idxs)
      else Inl IndexError)"

text \<open>
  \<open>np.argsort(a)\<close>: the positions of \<open>a\<close> in ascending order of value. numpy does not
  fix the order of equal values; the model keeps them in input order.
\<close>

definition np_argsort :: "real list \<Rightarrow> nat list" where
  "np_argsort a = sort_key (\<lambda>i. a ! i) [0..<length a]"

text \<open>\<open>np.zeros(n)\<close>.\<close>

definition np_zeros :: "int \<Rightarrow> error + real list" where
  "np_zeros n =
     (if n < 0 then Inl (ValueError ''negative dimensions are not allowed'')
      else Inr (replicate (nat n) 0))"

text \<open>\<open>np.vstack\<close> of two-dimensional blocks: the rows must have one width.\<close>

definition np_vstack :: "descriptor list list \<Rightarrow> error + descriptor list" where
  "np_vstack blocks =
     (if blocks = [] then Inl (ValueError ''need at least one array to concatenate'')
      else if list_all (\<lambda>d. length d = length (hd (concat blocks))) (concat blocks)
      then Inr (concat blocks)
      else Inl (ValueError ''all the input array dimensions except for the concatenation axis must match exactly''))"

section \<open>Feature budgeter: \<open>_select_best_features\<close>\<close>

text \<open>\<open>int(r)\<close> on a float: truncation towards zero.\<close>

definition py_int :: "real \<Rightarrow> int" where
  "py_int r = (if 0 \<le> r then \<lfloor>r\<rfloor> else \<lceil>r\<rceil>)"

abbreviation grid_size :: int where
  "grid_size \<equiv> 4"

text \<open>
  The cell \<open>(cell_y, cell_x)\<close> of a keypoint as \<open>cell_counts[cell_y, cell_x]\<close> reads it:
  the divisions raise on a zero cell size, the array access on an index below \<open>-4\<close>.
\<close>

definition grid_cell :: "real \<Rightarrow> real \<Rightarrow> cv_keypoint \<Rightarrow> error + nat \<times> nat" where
  "grid_cell cell_h cell_w kp =
     (case pt kp of (x, y) \<Rightarrow>
        if cell_w = 0 then Inl ZeroDivisionError
        else if cell_h = 0 then Inl ZeroDivisionError
        else
          (case (np_index (nat grid_size) (min (py_int (y / cell_h)) (grid_size - 1)),
                 np_index (nat grid_size) (min (py_int (x / cell_w)) (grid_size - 1))) of
             (Some cy, Some cx) \<Rightarrow> Inr (cy, cx)
           | _ \<Rightarrow> Inl IndexError))"

text \<open>
  First pass: the loop over \<open>sorted_indices\<close>, with the loop state
  \<open>(selected_indices, cell_counts)\<close>; the \<open>break\<close> returns at once.
\<close>

fun first_pass ::
  "int \<Rightarrow> int \<Rightarrow> real \<Rightarrow> real \<Rightarrow> cv_keypoint list \<Rightarrow> nat list \<Rightarrow>
   nat list \<Rightarrow> (nat \<times> nat \<Rightarrow> int) \<Rightarrow> error + nat list \<times> (nat \<times> nat \<Rightarrow> int)" where
  "first_pass budget features_per_cell cell_h cell_w kps [] selected_indices cell_counts =
     Inr (selected_indices, cell_counts)"
| "first_pass budget features_per_cell cell_h cell_w kps (idx # rest) selected_indices cell_counts =
     (case grid_cell cell_h cell_w (kps ! idx) of
        Inl e \<Rightarrow> Inl e
      | Inr c \<Rightarrow>
          if cell_counts c < features_per_cell then
            (if budget \<le> int (length (selected_indices @ [idx]))
             then Inr (selected_indices @ [idx], cell_counts(c := cell_counts c + 1))
             else first_pass budget features_per_cell cell_h cell_w kps rest
                    (selected_indices @ [idx]) (cell_counts(c := cell_counts c + 1)))
          else first_pass budget features_per_cell cell_h cell_w kps rest
                 selected_indices cell_counts)"

text \<open>Second pass: the loop that fills the remaining slots.\<close>

fun second_pass :: "int \<Rightarrow> nat list \<Rightarrow> nat list \<Rightarrow> nat list" where
  "second_pass budget [] selected_indices = selected_indices"
| "second_pass budget (idx # rest) selected_indices =
     (if idx \<notin> set selected_indices then
        (if budget \<le> int (length (selected_indices @ [idx])) then selected_indices @ [idx]
         else second_pass budget rest (selected_indices @ [idx]))
      else second_pass budget rest selected_indices)"

text \<open>The argument \<open>sorted_indices\<close> of both loops.\<close>

definition sorted_indices_of :: "cv_keypoint list \<Rightarrow> nat list" where
  "sorted_indices_of kps = np_argsort (map (\<lambda>r. - r) (map response kps))"

text \<open>The value of \<open>selected_indices\<close> and \<open>cell_counts\<close> after the first pass.\<close>

definition first_pass_result ::
  "builder \<Rightarrow> cv_keypoint list \<Rightarrow> nat \<times> nat \<Rightarrow> error + nat list \<times> (nat \<times> nat \<Rightarrow> int)" where
  "first_pass_result self kps image_shape =
     (case image_shape of (h, w) \<Rightarrow>
        first_pass (max_features_per_target self)
          (max_features_per_target self div (grid_size * grid_size))
          (real h / real_of_int grid_size) (real w / real_of_int grid_size)
          kps (sorted_indices_of kps) [] (\<lambda>c. 0))"

text \<open>The value of \<open>selected_indices\<close> after the second pass.\<close>

definition select_indices :: "builder \<Rightarrow> cv_keypoint list \<Rightarrow> nat \<times> nat \<Rightarrow> error + nat list" where
  "select_indices self kps image_shape =
     (case first_pass_result self kps image_shape of
        Inl e \<Rightarrow> Inl e
      | Inr (selected_indices, cell_counts) \<Rightarrow>
          if int (length selected_indices) < max_features_per_target self
          then Inr (second_pass (max_features_per_target self) (sorted_indices_of kps)
                      selected_indices)
          else Inr selected_indices)"

definition select_best_features ::
  "builder \<Rightarrow> (real \<times> real) list \<Rightarrow> descriptor list \<Rightarrow> cv_keypoint list \<Rightarrow> nat \<times> nat \<Rightarrow>
   error + (real \<times> real) list \<times> descriptor list \<times> cv_keypoint list" where
  "select_best_features self keypoints descriptors kps image_shape =
     (if int (length keypoints) \<le> max_features_per_target self
      then Inr (keypoints, descriptors, kps)
      else
        (case select_indices self kps image_shape of
           Inl e \<Rightarrow> Inl e
         | Inr selected_indices \<Rightarrow>
             (case np_take keypoints selected_indices of
                Inl e \<Rightarrow> Inl e
              | Inr selected_keypoints \<Rightarrow>
                  (case np_take descriptors selected_indices of
                     Inl e \<Rightarrow> Inl e
                   | Inr selected_descriptors \<Rightarrow>
                       Inr (selected_keypoints, selected_descriptors,
                            map (\<lambda>i. kps ! i) selected_indices)))))"

section \<open>Vocabulary builder: \<open>build_vocabulary\<close>\<close>

text \<open>\<open>np.unpackbits\<close> along a row: each byte becomes its eight bits, highest first.\<close>

definition unpackbits_row :: "descriptor \<Rightarrow> real list" where
  "unpackbits_row d =
     concat (map (\<lambda>b. map (\<lambda>i. if bit b i then 1 else 0) (rev [0..<8])) d)"

text \<open>
  \<open>np.packbits\<close> along a row: groups of eight bits, highest first, the last group
  padded with zeros.
\<close>

definition byte_of_bits :: "bool list \<Rightarrow> 8 word" where
  "byte_of_bits bs = foldl (\<lambda>acc b. 2 * acc + (if b then 1 else 0)) 0 bs"

fun packbits_row :: "bool list \<Rightarrow> descriptor" where
  "packbits_row [] = []"
| "packbits_row (b # bs) =
     byte_of_bits (take 8 (b # bs @ replicate 7 False)) # packbits_row (drop 7 bs)"

text \<open>
  \<open>centers_binary\<close>: each centre thresholded at 0.5 and packed back into bytes.
\<close>

definition centers_binary :: "real list list \<Rightarrow> descriptor list" where
  "centers_binary cluster_centers =
     map (\<lambda>c. packbits_row (map (\<lambda>v. 0.5 < v) c)) cluster_centers"

text \<open>
  The method returns the fitted \<open>kmeans\<close> object, which no caller uses; the model returns
  the builder with \<open>vocabulary_size\<close> and \<open>vocabulary\<close> as the method leaves them.
\<close>

definition build_vocabulary ::
  "('img, 'meta) env \<Rightarrow> builder \<Rightarrow> descriptor list \<Rightarrow> diagnostic list \<times> (error + builder)" where
  "build_vocabulary environ self all_descriptors =
     (let n = int (length all_descriptors);
          reduce = n < vocabulary_size self;
          out = (if reduce
                 then [FewerDescriptorsThanVocabulary n (vocabulary_size self),
                       ReducingVocabularySize n]
                 else []);
          self1 = (if reduce then self\<lparr>vocabulary_size := n\<rparr> else self);
          desc_float = map unpackbits_row all_descriptors
      in case kmeans_fit environ (vocabulary_size self1) desc_float of
           Inl e \<Rightarrow> (out, Inl e)
         | Inr cluster_centers \<Rightarrow>
             (out, Inr (self1\<lparr>vocabulary := Some (centers_binary cluster_centers)\<rparr>)))"

section \<open>Inverted index: \<open>compute_idf\<close>, \<open>descriptors_to_bow\<close>, \<open>compute_tfidf_vector\<close>\<close>

text \<open>\<open>df[word_id] += 1\<close>.\<close>

definition df_increment :: "real list \<Rightarrow> int \<Rightarrow> error + real list" where
  "df_increment df word_id =
     (case np_index (length df) word_id of
        None \<Rightarrow> Inl IndexError
      | Some i \<Rightarrow> Inr (df[i := df ! i + 1]))"

text \<open>The inner loop over \<open>bow.keys()\<close> and the outer loop over the histograms.\<close>

fun df_count_keys :: "real list \<Rightarrow> int list \<Rightarrow> error + real list" where
  "df_count_keys df [] = Inr df"
| "df_count_keys df (word_id # rest) =
     (case df_increment df word_id of
        Inl e \<Rightarrow> Inl e
      | Inr df' \<Rightarrow> df_count_keys df' rest)"

fun df_count_bows :: "real list \<Rightarrow> int dict list \<Rightarrow> error + real list" where
  "df_count_bows df [] = Inr df"
| "df_count_bows df (bow # rest) =
     (case df_count_keys df (dict_keys bow) of
        Inl e \<Rightarrow> Inl e
      | Inr df' \<Rightarrow> df_count_bows df' rest)"

text \<open>The local array \<open>df\<close> when the loops are done.\<close>

definition document_frequency :: "builder \<Rightarrow> int dict list \<Rightarrow> error + real list" where
  "document_frequency self target_bow_vectors =
     (case np_zeros (vocabulary_size self) of
        Inl e \<Rightarrow> Inl e
      | Inr df \<Rightarrow> df_count_bows df target_bow_vectors)"

definition compute_idf :: "builder \<Rightarrow> int dict list \<Rightarrow> error + builder" where
  "compute_idf self target_bow_vectors =
     (let N = int (length target_bow_vectors) in
      case document_frequency self target_bow_vectors of
        Inl e \<Rightarrow> Inl e
      | Inr df \<Rightarrow>
          Inr (self\<lparr>idf_weights := Some (map (\<lambda>d. ln ((real_of_int N + 1) / (d + 1))) df)\<rparr>))"

text \<open>
  The loop of \<open>descriptors_to_bow\<close> with its dictionary \<open>bow\<close>. Iterating a vocabulary
  that is still \<open>None\<close> raises \<open>TypeError\<close>.
\<close>

fun bow_loop :: "descriptor list option \<Rightarrow> descriptor list \<Rightarrow> int dict \<Rightarrow> error + int dict" where
  "bow_loop voc [] bow = Inr bow"
| "bow_loop voc (desc # rest) bow =
     (case voc of
        None \<Rightarrow> Inl TypeError
      | Some words \<Rightarrow>
          (case quantize_descriptor desc words of
             Inl e \<Rightarrow> Inl e
           | Inr word_id \<Rightarrow> bow_loop voc rest (dict_set bow word_id (dict_get bow word_id 0 + 1))))"

definition descriptors_to_bow :: "builder \<Rightarrow> descriptor list \<Rightarrow> error + int dict" where
  "descriptors_to_bow self descriptors = bow_loop (vocabulary self) descriptors []"

text \<open>\<open>self.idf_weights[word_id] if self.idf_weights is not None else 1.0\<close>.\<close>

definition idf_lookup :: "real list option \<Rightarrow> int \<Rightarrow> error + real" where
  "idf_lookup weights word_id =
     (case weights of
        None \<Rightarrow> Inr 1
      | Some ws \<Rightarrow>
          (case np_index (length ws) word_id of
             None \<Rightarrow> Inl IndexError
           | Some i \<Rightarrow> Inr (ws ! i)))"

text \<open>The loop of \<open>compute_tfidf_vector\<close> over \<open>bow.items()\<close> with its dictionary \<open>tfidf\<close>.\<close>

fun tfidf_loop :: "real list option \<Rightarrow> int \<Rightarrow> int dict \<Rightarrow> real dict \<Rightarrow> error + real dict" where
  "tfidf_loop weights num_features [] tfidf = Inr tfidf"
| "tfidf_loop weights num_features ((word_id, count) # rest) tfidf =
     (if num_features = 0 then Inl ZeroDivisionError
      else
        (case idf_lookup weights word_id of
           Inl e \<Rightarrow> Inl e
         | Inr idf \<Rightarrow>
             tfidf_loop weights num_features rest
               (dict_set tfidf word_id
                  (real_of_int count / real_of_int num_features * idf))))"

definition compute_tfidf_vector :: "builder \<Rightarrow> int dict \<Rightarrow> int \<Rightarrow> error + real dict" where
  "compute_tfidf_vector self bow num_features =
     tfidf_loop (idf_weights self) num_features bow []"

section \<open>Pipeline: \<open>extract_features\<close>, \<open>process_targets\<close>, \<open>main\<close>\<close>

definition extract_features ::
  "('img, 'meta) env \<Rightarrow> builder \<Rightarrow> string \<Rightarrow>
   diagnostic list \<times> (error + (real \<times> real) list \<times> descriptor list \<times> 'img \<times> 'meta option)" where
  "extract_features environ self image_path =
     (case imread environ image_path of
        None \<Rightarrow> ([], Inl (ValueError (''Failed to load image: '' @ image_path)))
      | Some img \<Rightarrow>
          (case detectAndCompute environ img of
             (kps, None) \<Rightarrow> ([NoFeaturesFound image_path], Inr ([], [], img, None))
           | (kps, Some descs) \<Rightarrow>
               if length descs = 0 then ([NoFeaturesFound image_path], Inr ([], [], img, None))
               else
                 (let keypoints = map pt kps;
                      metadata = compute_image_metadata environ img keypoints kps
                  in case select_best_features self keypoints descs kps (gray_shape environ img) of
                       Inl e \<Rightarrow> ([], Inl e)
                     | Inr (keypoints', descs', kps') \<Rightarrow>
                         ([], Inr (keypoints', descs', img, Some metadata)))))"

text \<open>
  One entry of \<open>target_features\<close>. \<open>id\<close> and \<open>filename\<close> are the stem and the name of
  the image path, which is the field \<open>source\<close>; \<open>bow\<close> and \<open>bow_tfidf\<close> are empty
  until steps 3 and 5 store them.
\<close>

record 'meta target =
  source :: string
  t_keypoints :: "(real \<times> real) list"
  t_descriptors :: "descriptor list"
  num_features :: int
  t_metadata :: "'meta option"
  t_bow :: "int dict"
  bow_tfidf :: "real dict"

text \<open>
  Step 1: the loop over \<open>sorted(image_files)\<close>, with the lists \<open>all_descriptors\<close> and
  \<open>target_features\<close> and the output written so far.
\<close>

fun extract_loop ::
  "('img, 'meta) env \<Rightarrow> builder \<Rightarrow> string list \<Rightarrow>
   descriptor list list \<Rightarrow> 'meta target list \<Rightarrow> diagnostic list \<Rightarrow>
   diagnostic list \<times> (error + descriptor list list \<times> 'meta target list)" where
  "extract_loop environ self [] all_descriptors target_features out =
     (out, Inr (all_descriptors, target_features))"
| "extract_loop environ self (img_path # rest) all_descriptors target_features out =
     (case extract_features environ self img_path of
        (out1, Inl e) \<Rightarrow> (out @ out1, Inl e)
      | (out1, Inr (keypoints, descriptors, img, metadata)) \<Rightarrow>
          if length descriptors = 0
          then extract_loop environ self rest all_descriptors target_features
                 (out @ out1 @ [SkippingNoFeatures img_path])
          else extract_loop environ self rest (all_descriptors @ [descriptors])
                 (target_features @
                    [\<lparr>source = img_path, t_keypoints = keypoints, t_descriptors = descriptors,
                      num_features = int (length keypoints), t_metadata = metadata,
                      t_bow = [], bow_tfidf = []\<rparr>])
                 (out @ out1))"

text \<open>Step 3: the loop that stores \<open>target['bow']\<close>.\<close>

fun bow_targets :: "builder \<Rightarrow> 'meta target list \<Rightarrow> error + 'meta target list" where
  "bow_targets self [] = Inr []"
| "bow_targets self (t # rest) =
     (case descriptors_to_bow self (t_descriptors t) of
        Inl e \<Rightarrow> Inl e
      | Inr bow \<Rightarrow>
          (case bow_targets self rest of
             Inl e \<Rightarrow> Inl e
           | Inr rest' \<Rightarrow> Inr (t\<lparr>t_bow := bow\<rparr> # rest')))"

text \<open>Step 5: the loop that stores \<open>target['bow_tfidf']\<close>.\<close>

fun tfidf_targets :: "builder \<Rightarrow> 'meta target list \<Rightarrow> error + 'meta target list" where
  "tfidf_targets self [] = Inr []"
| "tfidf_targets self (t # rest) =
     (case compute_tfidf_vector self (t_bow t) (num_features t) of
        Inl e \<Rightarrow> Inl e
      | Inr tfidf \<Rightarrow>
          (case tfidf_targets self rest of
             Inl e \<Rightarrow> Inl e
           | Inr rest' \<Rightarrow> Inr (t\<lparr>bow_tfidf := tfidf\<rparr> # rest')))"

text \<open>
  \<open>process_targets\<close> on the sorted image files of the target directory. It returns the
  output, and either the exception or the builder with \<open>self.targets\<close>.
\<close>

definition process_targets ::
  "('img, 'meta) env \<Rightarrow> builder \<Rightarrow> string list \<Rightarrow>
   diagnostic list \<times> (error + builder \<times> 'meta target list)" where
  "process_targets environ self image_files =
     (case extract_loop environ self image_files [] [] [] of
        (out, Inl e) \<Rightarrow> (out, Inl e)
      | (out, Inr (all_descriptors, target_features)) \<Rightarrow>
          if length all_descriptors = 0
          then (out, Inl (ValueError ''No features extracted from any target images''))
          else
            (case np_vstack all_descriptors of
               Inl e \<Rightarrow> (out, Inl e)
             | Inr pooled \<Rightarrow>
                 (case build_vocabulary environ self pooled of
                    (out2, Inl e) \<Rightarrow> (out @ out2, Inl e)
                  | (out2, Inr self2) \<Rightarrow>
                      (case bow_targets self2 target_features of
                         Inl e \<Rightarrow> (out @ out2, Inl e)
                       | Inr targets2 \<Rightarrow>
                           (case compute_idf self2 (map t_bow targets2) of
                              Inl e \<Rightarrow> (out @ out2, Inl e)
                            | Inr self3 \<Rightarrow>
                                (case tfidf_targets self3 targets2 of
                                   Inl e \<Rightarrow> (out @ out2, Inl e)
                                 | Inr targets3 \<Rightarrow> (out @ out2, Inr (self3, targets3))))))))"

text \<open>
  The \<open>try\<close> block of \<open>main\<close>, after the builder is created: the output and the exit
  status of the process (0 when \<open>main\<close> returns).
\<close>

definition main_build ::
  "('img, 'meta) env \<Rightarrow> builder \<Rightarrow> string list \<Rightarrow> string \<Rightarrow> diagnostic list \<times> int" where
  "main_build environ self image_files output_path =
     (case process_targets environ self image_files of
        (out, Inl e) \<Rightarrow> (out @ [ErrorReport e], 1)
      | (out, Inr r) \<Rightarrow>
          (case write_database environ output_path of
             Inl e \<Rightarrow> (out @ [ErrorReport e], 1)
           | Inr u \<Rightarrow> (out, 0)))"

section \<open>Notions used to state the properties\<close>

text \<open>
  The positions among \<open>idxs\<close> whose keypoint falls into grid cell \<open>c\<close>, as the first
  pass computes the cell.
\<close>

definition cell_members ::
  "real \<Rightarrow> real \<Rightarrow> cv_keypoint list \<Rightarrow> nat \<times> nat \<Rightarrow> nat list \<Rightarrow> nat list" where
  "cell_members cell_h cell_w kps c idxs =
     filter (\<lambda>i. grid_cell cell_h cell_w (kps ! i) = Inr c) idxs"

text \<open>
  An entry \<open>r\<close> of a TF-IDF vector is the weighted form of the histogram entry \<open>e\<close>:
  the same word, with weight \<open>count / num_features * idf[word]\<close>.
\<close>

definition weighted :: "real list option \<Rightarrow> int \<Rightarrow> int \<times> int \<Rightarrow> int \<times> real \<Rightarrow> bool" where
  "weighted weights nf e r \<longleftrightarrow>
     fst r = fst e \<and>
     (\<exists>idf. idf_lookup weights (fst e) = Inr idf \<and>
        snd r = real_of_int (snd e) / real_of_int nf * idf)"

text \<open>
  An image path yields usable features when the image loads and the detector returns a
  non-empty descriptor array.
\<close>

definition has_features :: "('img, 'meta) env \<Rightarrow> string \<Rightarrow> bool" where
  "has_features environ p =
     (case imread environ p of
        None \<Rightarrow> False
      | Some img \<Rightarrow>
          (case detectAndCompute environ img of
             (kps, None) \<Rightarrow> False
           | (kps, Some descs) \<Rightarrow> descs \<noteq> []))"

text \<open>
  What the pipeline relies on from OpenCV for an image that has features: keypoints and
  descriptors are parallel sequences, all descriptors have \<open>L\<close> bytes, the keypoints lie
  at non-negative coordinates, and the image is not empty.
\<close>

definition image_ok :: "('img, 'meta) env \<Rightarrow> nat \<Rightarrow> string \<Rightarrow> bool" where
  "image_ok environ L p =
     (case imread environ p of
        None \<Rightarrow> True
      | Some img \<Rightarrow>
          (case detectAndCompute environ img of
             (kps, None) \<Rightarrow> True
           | (kps, Some descs) \<Rightarrow>
               descs = [] \<or>
               (length kps = length descs \<and>
                list_all (\<lambda>d. length d = L) descs \<and>
                list_all (\<lambda>kp. 0 \<le> fst (pt kp) \<and> 0 \<le> snd (pt kp)) kps \<and>
                0 < fst (gray_shape environ img) \<and> 0 < snd (gray_shape environ img))))"

text \<open>
  What the pipeline relies on from \<open>MiniBatchKMeans\<close>: asked for between one cluster
  and as many clusters as there are samples, it returns that many centres, each of the
  samples' dimension.
\<close>

definition kmeans_ok :: "('img, 'meta) env \<Rightarrow> bool" where
  "kmeans_ok environ \<longleftrightarrow>
     (\<forall>n_clusters X m.
        1 \<le> n_clusters \<and> n_clusters \<le> int (length X) \<and> (\<forall>row\<in>set X. length row = m) \<longrightarrow>
        (\<exists>centers. kmeans_fit environ n_clusters X = Inr centers \<and>
           int (length centers) = n_clusters \<and> (\<forall>c\<in>set centers. length c = m)))"

text \<open>The warnings step 1 of \<open>process_targets\<close> prints for the images without features.\<close>

definition skip_log :: "('img, 'meta) env \<Rightarrow> string list \<Rightarrow> diagnostic list" where
  "skip_log environ files =
     concat (map (\<lambda>p. if has_features environ p then []
                        else [NoFeaturesFound p, SkippingNoFeatures p]) files)"

text \<open>
  A target after step 1, after step 3 and after step 5: the budgeted features are
  parallel and counted by \<open>num_features\<close>; the histogram is the one
  \<open>descriptors_to_bow\<close> returns, over word-ids of the vocabulary; the TF-IDF vector is the
  one \<open>compute_tfidf_vector\<close> returns.
\<close>

definition target_ok :: "nat \<Rightarrow> 'meta target \<Rightarrow> bool" where
  "target_ok L t \<longleftrightarrow>
     t_descriptors t \<noteq> [] \<and> list_all (\<lambda>d. length d = L) (t_descriptors t) \<and>
     length (t_keypoints t) = length (t_descriptors t) \<and>
     num_features t = int (length (t_descriptors t))"

definition histogram_ok :: "builder \<Rightarrow> 'meta target \<Rightarrow> bool" where
  "histogram_ok self t \<longleftrightarrow>
     descriptors_to_bow self (t_descriptors t) = Inr (t_bow t) \<and>
     distinct (dict_keys (t_bow t)) \<and>
     list_all (\<lambda>k. 0 \<le> k \<and> k < vocabulary_size self) (dict_keys (t_bow t)) \<and>
     sum_list (map snd (t_bow t)) = num_features t"

definition tfidf_ok :: "builder \<Rightarrow> 'meta target \<Rightarrow> bool" where
  "tfidf_ok self t \<longleftrightarrow>
     compute_tfidf_vector self (t_bow t) (num_features t) = Inr (bow_tfidf t) \<and>
     list_all2 (weighted (idf_weights self) (num_features t)) (t_bow t) (bow_tfidf t)"

section \<open>Example inputs\<close>

text \<open>
  A budget of 2 with three keypoints, and a budget of 16 (one feature per cell in the
  first pass) with seventeen keypoints, sixteen of them in the top-left cell.
\<close>

definition ex3_self :: builder where
  "ex3_self = (init_builder 1 1)\<lparr>max_features_per_target := 2\<rparr>"

definition ex3_kps :: "cv_keypoint list" where
  "ex3_kps = [\<lparr>pt = (10, 10), response = 5\<rparr>, \<lparr>pt = (90, 90), response = 9\<rparr>,
              \<lparr>pt = (50, 50), response = 7\<rparr>]"

definition ex16_self :: builder where
  "ex16_self = (init_builder 1 1)\<lparr>max_features_per_target := 16\<rparr>"

definition ex17_kps :: "cv_keypoint list" where
  "ex17_kps =
     map (\<lambda>r. \<lparr>pt = (1, 1), response = r\<rparr>)
       [17, 16, 15, 14, 13, 12, 11, 10, 9, 8, 7, 6, 5, 4, 3, 2] @
     [\<lparr>pt = (99, 99), response = 1\<rparr>]"

text \<open>
  An environment with three images, the second without features, and a clustering that
  returns the first samples as centres; the result of the build on them.
\<close>

definition ex_env :: "(nat, unit) env" where
  "ex_env =
     \<lparr>imread = (\<lambda>p. if p = ''a.png'' then Some 0 else if p = ''b.png'' then Some 1
                     else if p = ''c.png'' then Some 2 else None),
      gray_shape = (\<lambda>img. (100, 100)),
      detectAndCompute = (\<lambda>img.
         if img = 0
         then ([\<lparr>pt = (10, 10), response = 5\<rparr>, \<lparr>pt = (90, 90), response = 9\<rparr>],
               Some [[255], [0]])
         else if img = 2 then ([\<lparr>pt = (50, 50), response = 7\<rparr>], Some [[255]])
         else ([], None)),
      compute_image_metadata = (\<lambda>img keypoints kps. ()),
      kmeans_fit = (\<lambda>n_clusters X. Inr (take (nat n_clusters) X)),
      write_database = (\<lambda>output_path. Inr ())\<rparr>"

definition ex_files :: "string list" where
  "ex_files = [''a.png'', ''b.png'', ''c.png'']"

definition ex_result :: "builder \<times> unit target list" where
  "ex_result =
     ((init_builder 10 3)\<lparr>vocabulary_size := 3, vocabulary := Some [[255], [0], [255]],
          idf_weights := Some [0, ln (3 / 2), ln 3]\<rparr>,
      [\<lparr>source = ''a.png'', t_keypoints = [(10, 10), (90, 90)],
        t_descriptors = [[255], [0]], num_features = 2, t_metadata = Some (),
        t_bow = [(0, 1), (1, 1)], bow_tfidf = [(0, 0), (1, 1 / 2 * ln (3 / 2))]\<rparr>,
       \<lparr>source = ''c.png'', t_keypoints = [(50, 50)],
        t_descriptors = [[255]], num_features = 1, t_metadata = Some (),
        t_bow = [(0, 1)], bow_tfidf = [(0, 0)]\<rparr>])"

section \<open>Properties of the quantizer\<close>

lemma mapM_err_Inr:
  "(\<And>x. x \<in> set xs \<Longrightarrow> f x = Inr (g x)) \<Longrightarrow> mapM_err f xs = Inr (map g xs)"
  by (induction xs) auto

lemma mapM_err_length:
  "mapM_err f xs = Inr ys \<Longrightarrow> length ys = length xs"
  by (induction xs arbitrary: ys) (auto split: sum.splits)

lemma mapM_err_nth:
  "mapM_err f xs = Inr ys \<Longrightarrow> i < length xs \<Longrightarrow> f (xs ! i) = Inr (ys ! i)"
proof (induction xs arbitrary: ys i)
  case Nil then show ?case by simp
next
  case (Cons x xs)
  then show ?case by (cases i) (auto split: sum.splits)
qed

lemma argmin_scan_spec:
  assumes "i = length ys" "bi < i" "ys ! bi = bv"
    "\<forall>j<i. bv \<le> ys ! j" "\<forall>j<bi. bv < ys ! j"
  shows "argmin_scan xs i bi bv < length (ys @ xs) \<and>
         (\<forall>j<length (ys @ xs). (ys @ xs) ! argmin_scan xs i bi bv \<le> (ys @ xs) ! j) \<and>
         (\<forall>j<argmin_scan xs i bi bv. (ys @ xs) ! argmin_scan xs i bi bv < (ys @ xs) ! j)"
  using assms
proof (induction xs arbitrary: ys i bi bv)
  case Nil
  then show ?case by auto
next
  case (Cons x xs)
  show ?case
  proof (cases "x < bv")
    case True
    have "argmin_scan xs (Suc i) i x < length ((ys @ [x]) @ xs) \<and>
         (\<forall>j<length ((ys @ [x]) @ xs). ((ys @ [x]) @ xs) ! argmin_scan xs (Suc i) i x \<le> ((ys @ [x]) @ xs) ! j) \<and>
         (\<forall>j<argmin_scan xs (Suc i) i x. ((ys @ [x]) @ xs) ! argmin_scan xs (Suc i) i x < ((ys @ [x]) @ xs) ! j)"
    proof (rule Cons.IH)
      show "Suc i = length (ys @ [x])" using Cons.prems by simp
      show "i < Suc i" by simp
      show "(ys @ [x]) ! i = x" using Cons.prems by simp
      show "\<forall>j<Suc i. x \<le> (ys @ [x]) ! j"
      proof (intro allI impI)
        fix j assume "j < Suc i"
        show "x \<le> (ys @ [x]) ! j"
        proof (cases "j < i")
          case True
          then have "bv \<le> ys ! j" using Cons.prems by simp
          with \<open>x < bv\<close> have "x \<le> ys ! j" by linarith
          moreover have "j < length ys" using True Cons.prems(1) by simp
          ultimately show ?thesis by (simp add: nth_append)
        next
          case False
          with \<open>j < Suc i\<close> have "j = length ys" using Cons.prems by simp
          then show ?thesis by simp
        qed
      qed
      show "\<forall>j<i. x < (ys @ [x]) ! j"
      proof (intro allI impI)
        fix j assume "j < i"
        then have "bv \<le> ys ! j" using Cons.prems by simp
        with \<open>x < bv\<close> have "x < ys ! j" by linarith
        moreover have "j < length ys" using \<open>j < i\<close> Cons.prems(1) by simp
        ultimately show "x < (ys @ [x]) ! j"
          by (simp add: nth_append)
      qed
    qed
    with True show ?thesis by simp
  next
    case False
    have "argmin_scan xs (Suc i) bi bv < length ((ys @ [x]) @ xs) \<and>
         (\<forall>j<length ((ys @ [x]) @ xs). ((ys @ [x]) @ xs) ! argmin_scan xs (Suc i) bi bv \<le> ((ys @ [x]) @ xs) ! j) \<and>
         (\<forall>j<argmin_scan xs (Suc i) bi bv. ((ys @ [x]) @ xs) ! argmin_scan xs (Suc i) bi bv < ((ys @ [x]) @ xs) ! j)"
    proof (rule Cons.IH)
      show "Suc i = length (ys @ [x])" using Cons.prems by simp
      show "bi < Suc i" using Cons.prems by simp
      show "(ys @ [x]) ! bi = bv" using Cons.prems by (simp add: nth_append)
      show "\<forall>j<Suc i. bv \<le> (ys @ [x]) ! j"
        using Cons.prems False by (auto simp: nth_append less_Suc_eq)
      show "\<forall>j<bi. bv < (ys @ [x]) ! j"
        using Cons.prems False by (auto simp: nth_append)
    qed
    with False show ?thesis by simp
  qed
qed

lemma np_argmin_spec:
  assumes "xs \<noteq> []"
  shows "\<exists>i. np_argmin xs = Inr i \<and> i < length xs \<and>
     (\<forall>j<length xs. xs ! i \<le> xs ! j) \<and> (\<forall>j<i. xs ! i < xs ! j)"
proof -
  obtain x rest where xs: "xs = x # rest" using assms by (cases xs) auto
  have "argmin_scan rest 1 0 x < length ([x] @ rest) \<and>
         (\<forall>j<length ([x] @ rest). ([x] @ rest) ! argmin_scan rest 1 0 x \<le> ([x] @ rest) ! j) \<and>
         (\<forall>j<argmin_scan rest 1 0 x. ([x] @ rest) ! argmin_scan rest 1 0 x < ([x] @ rest) ! j)"
    by (rule argmin_scan_spec) auto
  then show ?thesis by (simp add: np_argmin_def xs)
qed

lemma count_ones_0: "count_ones 0 = 0"
  by (simp add: count_ones.simps)

lemma count_ones_step: "count_ones n = n mod 2 + count_ones (n div 2)"
  by (cases "n = 0") (simp_all add: count_ones.simps[of n] count_ones_0)

lemma count_ones_shift:
  "r < 2 ^ m \<Longrightarrow> count_ones (a * 2 ^ m + r) = count_ones a + count_ones r"
proof (induction m arbitrary: a r)
  case 0
  then show ?case by (simp add: count_ones_0)
next
  case (Suc m)
  have r2: "r div 2 < 2 ^ m" using Suc.prems by simp
  have "a * 2 ^ Suc m + r = 2 * (a * 2 ^ m) + r" by simp
  then have "(a * 2 ^ Suc m + r) mod 2 = r mod 2" by (metis mod_mult_self4)
  moreover have "(a * 2 ^ Suc m + r) div 2 = a * 2 ^ m + r div 2" by simp
  ultimately have "count_ones (a * 2 ^ Suc m + r) = r mod 2 + count_ones (a * 2 ^ m + r div 2)"
    using count_ones_step[of "a * 2 ^ Suc m + r"] by simp
  also have "\<dots> = r mod 2 + (count_ones a + count_ones (r div 2))"
    using Suc.IH[OF r2] by simp
  also have "\<dots> = count_ones a + count_ones r"
    using count_ones_step[of r] by simp
  finally show ?case .
qed

lemma count_ones_bits:
  "n < 2 ^ m \<Longrightarrow> count_ones n = length (filter (\<lambda>k. bit n k) [0..<m])"
proof (induction m arbitrary: n)
  case 0
  then show ?case by (simp add: count_ones_0)
next
  case (Suc m)
  have n2: "n div 2 < 2 ^ m" using Suc.prems by simp
  have upt: "[0..<Suc m] = 0 # map Suc [0..<m]"
    by (simp add: upt_conv_Cons map_Suc_upt del: upt_Suc)
  have "length (filter (\<lambda>k. bit n k) [0..<Suc m]) =
        (if odd n then 1 else 0) + length (filter (\<lambda>k. bit (n div 2) k) [0..<m])"
    unfolding upt by (simp add: filter_map comp_def bit_Suc bit_0 del: upt_Suc)
  also have "\<dots> = n mod 2 + count_ones (n div 2)"
    using Suc.IH[OF n2] by (simp add: odd_iff_mod_2_eq_one)
  finally show ?case using count_ones_step[of n] by simp
qed

lemma count_ones_byte:
  "count_ones (unat (x :: 8 word)) = length (filter (\<lambda>k. bit x k) [0..<8])"
proof -
  have "unat x < 2 ^ 8" using unsigned_less[of x] by simp
  then have "count_ones (unat x) = length (filter (\<lambda>k. bit (unat x) k) [0..<8])"
    by (rule count_ones_bits)
  then show ?thesis by (simp add: bit_unsigned_iff)
qed

lemma count_ones_from_bytes_aux:
  "count_ones (foldl (\<lambda>acc b. acc * 256 + unat (b :: 8 word)) acc bs) =
   count_ones acc + sum_list (map (\<lambda>b. count_ones (unat b)) bs)"
proof (induction bs arbitrary: acc)
  case Nil
  then show ?case by simp
next
  case (Cons b bs)
  have "unat b < 2 ^ 8" using unsigned_less[of b] by simp
  then have "count_ones (acc * 2 ^ 8 + unat b) = count_ones acc + count_ones (unat b)"
    by (rule count_ones_shift)
  then show ?case using Cons.IH[of "acc * 256 + unat b"] by simp
qed

lemma count_ones_from_bytes:
  "count_ones (int_from_bytes_big bs) = sum_list (map (\<lambda>b. count_ones (unat b)) bs)"
  by (simp add: int_from_bytes_big_def count_ones_from_bytes_aux count_ones_0)

lemma filter_bit_xor:
  "filter (bit (x XOR y)) ks = filter (\<lambda>k. bit x k \<noteq> bit (y :: 8 word) k) ks"
  by (rule filter_cong) (auto simp: bit_xor_iff)

lemma hamming_differing_bits:
  assumes "length a = length b"
  shows "hamming a b = Inr (differing_bits a b)"
proof -
  have "sum_list (map (\<lambda>b. count_ones (unat b)) (map2 (\<lambda>x y. x XOR y) a b)) =
        differing_bits a b"
    unfolding differing_bits_def
    by (simp add: count_ones_byte filter_bit_xor comp_def case_prod_unfold)
  then show ?thesis
    using assms by (simp add: hamming_def np_xor_def count_ones_from_bytes)
qed

lemma quantize_descriptor_argmin:
  assumes ne: "vocab \<noteq> []" and len: "\<forall>word\<in>set vocab. length word = length d"
  shows "\<exists>w<length vocab. quantize_descriptor d vocab = Inr (int w) \<and>
     (\<forall>j<length vocab. differing_bits d (vocab ! w) \<le> differing_bits d (vocab ! j)) \<and>
     (\<forall>j<w. differing_bits d (vocab ! w) < differing_bits d (vocab ! j))"
proof -
  let ?dist = "map (differing_bits d) vocab"
  have "\<And>word. word \<in> set vocab \<Longrightarrow> hamming d word = Inr (differing_bits d word)"
    using len by (simp add: hamming_differing_bits)
  then have m: "mapM_err (hamming d) vocab = Inr ?dist"
    by (rule mapM_err_Inr)
  have "?dist \<noteq> []" using ne by simp
  from np_argmin_spec[OF this] obtain i where
    i: "np_argmin ?dist = Inr i" "i < length ?dist"
       "\<forall>j<length ?dist. ?dist ! i \<le> ?dist ! j" "\<forall>j<i. ?dist ! i < ?dist ! j"
    by blast
  have "quantize_descriptor d vocab = Inr (int i)"
    by (simp add: quantize_descriptor_def m i(1))
  moreover have "i < length vocab" using i(2) by simp
  moreover have "\<forall>j<length vocab. differing_bits d (vocab ! i) \<le> differing_bits d (vocab ! j)"
    using i(2,3) by simp
  moreover have "\<forall>j<i. differing_bits d (vocab ! i) < differing_bits d (vocab ! j)"
    using i(2,4) by simp
  ultimately show ?thesis by blast
qed

lemma byte_no_differing_bit:
  "length (filter (\<lambda>k. bit x k \<noteq> bit (y :: 8 word) k) [0..<8]) = 0 \<longleftrightarrow> x = y"
proof
  assume "length (filter (\<lambda>k. bit x k \<noteq> bit y k) [0..<8]) = 0"
  then have "\<forall>k\<in>set [0..<8]. bit x k = bit y k"
    by (simp only: length_0_conv filter_empty_conv) blast
  then have "\<And>k. k < 8 \<Longrightarrow> bit x k = bit y k" by simp
  then show "x = y" by (intro bit_word_eqI) simp
next
  assume "x = y" then show "length (filter (\<lambda>k. bit x k \<noteq> bit y k) [0..<8]) = 0" by simp
qed

lemma differing_bits_eq_0:
  "length a = length b \<Longrightarrow> differing_bits a b = 0 \<longleftrightarrow> a = b"
proof (induction a b rule: list_induct2)
  case Nil
  then show ?case by (simp add: differing_bits_def)
next
  case (Cons x xs y ys)
  have "differing_bits (x # xs) (y # ys) =
        length (filter (\<lambda>k. bit x k \<noteq> bit y k) [0..<8]) + differing_bits xs ys"
    by (simp add: differing_bits_def)
  then show ?case using Cons.IH byte_no_differing_bit[of x y] by simp
qed

lemma quantize_centroid:
  assumes i: "i < length vocab"
    and len: "\<forall>word\<in>set vocab. length word = length (vocab ! i)"
  shows "\<exists>j\<le>i. quantize_descriptor (vocab ! i) vocab = Inr (int j) \<and>
           vocab ! j = vocab ! i \<and> (\<forall>j'<j. vocab ! j' \<noteq> vocab ! i)"
proof -
  have ne: "vocab \<noteq> []" using i by auto
  from quantize_descriptor_argmin[OF ne len] obtain w where
    w: "w < length vocab" "quantize_descriptor (vocab ! i) vocab = Inr (int w)"
       "\<forall>j<length vocab. differing_bits (vocab ! i) (vocab ! w) \<le> differing_bits (vocab ! i) (vocab ! j)"
       "\<forall>j<w. differing_bits (vocab ! i) (vocab ! w) < differing_bits (vocab ! i) (vocab ! j)"
    by blast
  have leni: "\<And>j. j < length vocab \<Longrightarrow> length (vocab ! i) = length (vocab ! j)"
    using len by simp
  have self0: "differing_bits (vocab ! i) (vocab ! i) = 0"
    by (simp add: differing_bits_eq_0)
  have "differing_bits (vocab ! i) (vocab ! w) \<le> 0"
    using w(3) i self0 by metis
  then have d0: "differing_bits (vocab ! i) (vocab ! w) = 0" by simp
  then have eq: "vocab ! w = vocab ! i"
    using differing_bits_eq_0[OF leni[OF w(1)]] by simp
  have "w \<le> i"
  proof (rule ccontr)
    assume "\<not> w \<le> i"
    then have "i < w" by simp
    with w(4) have "differing_bits (vocab ! i) (vocab ! w) < differing_bits (vocab ! i) (vocab ! i)"
      by blast
    with self0 show False by simp
  qed
  moreover have "\<forall>j'<w. vocab ! j' \<noteq> vocab ! i"
  proof (intro allI impI)
    fix j' assume j': "j' < w"
    then have "0 < differing_bits (vocab ! i) (vocab ! j')" using w(4) d0 by auto
    moreover have "j' < length vocab" using j' w(1) by simp
    ultimately show "vocab ! j' \<noteq> vocab ! i"
      using differing_bits_eq_0[OF leni, of j'] by auto
  qed
  ultimately show ?thesis using w(2) eq by blast
qed

text \<open>
  Claim C4. For a descriptor \<open>d\<close> and a non-empty vocabulary of centroids of the
  descriptor's length, \<open>quantize_descriptor\<close> returns an index \<open>w\<close> of the vocabulary
  whose centroid has the least number of bits differing from \<open>d\<close> over the whole
  vocabulary, and every centroid at a lower index is strictly farther: among the nearest
  centroids the lowest index is returned.
\<close>

theorem quantize_descriptor_nearest_lowest:
  assumes "vocab \<noteq> []" and "\<forall>word\<in>set vocab. length word = length d"
  shows "\<exists>w<length vocab. quantize_descriptor d vocab = Inr (int w) \<and>
     (\<forall>j<length vocab. differing_bits d (vocab ! w) \<le> differing_bits d (vocab ! j)) \<and>
     (\<forall>j<w. differing_bits d (vocab ! w) < differing_bits d (vocab ! j))"
  using assms by (rule quantize_descriptor_argmin)

theorem quantize_descriptor_nearest_lowest_witness:
  "quantize_descriptor [15] [[255], [14], [31]] = Inr 1 \<and>
   differing_bits [15] [255] = 4 \<and> differing_bits [15] [14] = 1 \<and>
   differing_bits [15] [31] = 1"
proof -
  have ne: "[[255], [14], [31 :: 8 word]] \<noteq> []" by simp
  have len: "\<forall>word\<in>set [[255], [14], [31 :: 8 word]]. length word = length [15 :: 8 word]"
    by simp
  from quantize_descriptor_nearest_lowest[OF ne len]
  obtain w where "quantize_descriptor [15] [[255], [14], [31]] = Inr (int w)"
    by blast
  moreover have "quantize_descriptor [15] [[255], [14], [31]] = Inr 1"
    by (simp add: quantize_descriptor_def hamming_def np_xor_def int_from_bytes_big_def
        np_argmin_def count_ones.simps)
  moreover have "differing_bits [15] [255] = 4 \<and> differing_bits [15] [14] = 1 \<and>
      differing_bits [15] [31] = 1"
    by (simp add: differing_bits_def upt_rec bit_numeral_rec)
  ultimately show ?thesis by simp
qed

text \<open>
  Claim C9, as stated, fails: a vocabulary may hold the same centroid twice (two cluster
  centres with the same bits after thresholding), and the scan then returns the first
  of them. With the vocabulary \<open>[[0], [0]]\<close> and \<open>i = 1\<close> the result is 0.
\<close>

theorem quantize_centroid_counterexample:
  "quantize_descriptor ([[0], [0]] ! 1) [[0], [0]] = Inr 0 \<and>
   quantize_descriptor ([[0], [0]] ! 1) [[0], [0]] \<noteq> Inr 1"
  by (simp add: quantize_descriptor_def hamming_def np_xor_def int_from_bytes_big_def
      np_argmin_def count_ones.simps)

text \<open>
  Claim C9, amended. For every vocabulary of centroids of one length and every index
  \<open>i\<close> into it, quantizing the centroid \<open>vocab ! i\<close> against the vocabulary returns the
  lowest index \<open>j\<close> whose centroid equals \<open>vocab ! i\<close> (at Hamming distance 0); it
  returns \<open>i\<close> itself whenever no centroid at a lower index equals \<open>vocab ! i\<close>, in
  particular when the centroids are pairwise distinct.
\<close>

theorem quantize_centroid_first_equal:
  assumes "i < length vocab"
    and "\<forall>word\<in>set vocab. length word = length (vocab ! i)"
  shows "(\<exists>j\<le>i. quantize_descriptor (vocab ! i) vocab = Inr (int j) \<and>
            vocab ! j = vocab ! i \<and> (\<forall>j'<j. vocab ! j' \<noteq> vocab ! i)) \<and>
         ((\<forall>j<i. vocab ! j \<noteq> vocab ! i) \<longrightarrow>
            quantize_descriptor (vocab ! i) vocab = Inr (int i)) \<and>
         (distinct vocab \<longrightarrow> quantize_descriptor (vocab ! i) vocab = Inr (int i))"
proof -
  from quantize_centroid[OF assms] obtain j where
    j: "j \<le> i" "quantize_descriptor (vocab ! i) vocab = Inr (int j)"
       "vocab ! j = vocab ! i" "\<forall>j'<j. vocab ! j' \<noteq> vocab ! i"
    by blast
  have one: "(\<forall>j<i. vocab ! j \<noteq> vocab ! i) \<longrightarrow>
      quantize_descriptor (vocab ! i) vocab = Inr (int i)"
  proof
    assume "\<forall>j<i. vocab ! j \<noteq> vocab ! i"
    with j(1,3) have "j = i" by (metis le_neq_implies_less)
    with j(2) show "quantize_descriptor (vocab ! i) vocab = Inr (int i)" by simp
  qed
  have "distinct vocab \<longrightarrow> (\<forall>j<i. vocab ! j \<noteq> vocab ! i)"
    using assms(1) by (auto simp: distinct_conv_nth)
  with one have two: "distinct vocab \<longrightarrow> quantize_descriptor (vocab ! i) vocab = Inr (int i)"
    by blast
  from j one two show ?thesis by blast
qed

theorem quantize_centroid_first_equal_witness:
  "quantize_descriptor ([[1], [2], [1]] ! 2) [[1], [2], [1]] = Inr 0 \<and>
   quantize_descriptor ([[1], [2], [3]] ! 2) [[1], [2], [3]] = Inr 2"
proof -
  have a: "2 < length [[1], [2], [1 :: 8 word]]" by simp
  have b: "\<forall>word\<in>set [[1], [2], [1 :: 8 word]]. length word = length ([[1], [2], [1 :: 8 word]] ! 2)"
    by simp
  have c: "2 < length [[1], [2], [3 :: 8 word]]" by simp
  have d: "\<forall>word\<in>set [[1], [2], [3 :: 8 word]]. length word = length ([[1], [2], [3 :: 8 word]] ! 2)"
    by simp
  have e: "distinct [[1], [2], [3 :: 8 word]]" by simp
  from quantize_centroid_first_equal[OF a b]
  obtain j where "j \<le> 2" "quantize_descriptor ([[1], [2], [1]] ! 2) [[1], [2], [1]] = Inr (int j)"
    "[[1], [2], [1 :: 8 word]] ! j = [[1], [2], [1]] ! 2"
    "\<forall>j'<j. [[1], [2], [1 :: 8 word]] ! j' \<noteq> [[1], [2], [1]] ! 2"
    by blast
  have "quantize_descriptor ([[1], [2], [1]] ! 2) [[1], [2], [1]] = Inr 0"
    by (simp add: quantize_descriptor_def hamming_def np_xor_def int_from_bytes_big_def
        np_argmin_def count_ones.simps)
  moreover have "quantize_descriptor ([[1], [2], [3]] ! 2) [[1], [2], [3]] = Inr 2"
    using quantize_centroid_first_equal[OF c d] e by simp
  ultimately show ?thesis by simp
qed

section \<open>Properties of the inverted index\<close>

lemma np_index_in_range:
  "0 \<le> i \<Longrightarrow> i < int n \<Longrightarrow> np_index n i = Some (nat i)"
  by (simp add: np_index_def)

lemma df_count_keys_spec:
  assumes "\<forall>k\<in>set keys. 0 \<le> k \<and> k < int (length df)"
  shows "\<exists>df'. df_count_keys df keys = Inr df' \<and> length df' = length df \<and>
     (\<forall>i<length df. df' ! i = df ! i + real (count_list keys (int i)))"
  using assms
proof (induction keys arbitrary: df)
  case Nil
  then show ?case by simp
next
  case (Cons k keys)
  let ?df1 = "df[nat k := df ! nat k + 1]"
  have k: "0 \<le> k" "k < int (length df)" using Cons.prems by simp_all
  have inc: "df_increment df k = Inr ?df1"
    using k by (simp add: df_increment_def np_index_in_range)
  have "\<forall>k\<in>set keys. 0 \<le> k \<and> k < int (length ?df1)" using Cons.prems by simp
  from Cons.IH[OF this] obtain df' where
    df': "df_count_keys ?df1 keys = Inr df'" "length df' = length ?df1"
         "\<forall>i<length ?df1. df' ! i = ?df1 ! i + real (count_list keys (int i))"
    by blast
  have "\<forall>i<length df. df' ! i = df ! i + real (count_list (k # keys) (int i))"
  proof (intro allI impI)
    fix i assume i: "i < length df"
    then have "df' ! i = ?df1 ! i + real (count_list keys (int i))" using df'(3) by simp
    moreover have "?df1 ! i = df ! i + (if k = int i then 1 else 0)"
      using i k by (auto simp: nth_list_update)
    ultimately show "df' ! i = df ! i + real (count_list (k # keys) (int i))" by auto
  qed
  with inc df'(1,2) show ?case by simp
qed

lemma count_list_distinct:
  "distinct xs \<Longrightarrow> count_list xs x = (if x \<in> set xs then 1 else 0)"
  by (induction xs) auto

lemma df_count_bows_spec:
  assumes "\<forall>bow\<in>set bows. distinct (dict_keys bow) \<and>
             (\<forall>k\<in>set (dict_keys bow). 0 \<le> k \<and> k < int (length df))"
  shows "\<exists>df'. df_count_bows df bows = Inr df' \<and> length df' = length df \<and>
     (\<forall>i<length df. df' ! i =
        df ! i + real (length (filter (\<lambda>bow. int i \<in> set (dict_keys bow)) bows)))"
  using assms
proof (induction bows arbitrary: df)
  case Nil
  then show ?case by simp
next
  case (Cons bow bows)
  have d: "distinct (dict_keys bow)"
    and r: "\<forall>k\<in>set (dict_keys bow). 0 \<le> k \<and> k < int (length df)"
    using Cons.prems by simp_all
  from df_count_keys_spec[OF r] obtain df1 where
    df1: "df_count_keys df (dict_keys bow) = Inr df1" "length df1 = length df"
         "\<forall>i<length df. df1 ! i = df ! i + real (count_list (dict_keys bow) (int i))"
    by blast
  have "\<forall>b\<in>set bows. distinct (dict_keys b) \<and>
          (\<forall>k\<in>set (dict_keys b). 0 \<le> k \<and> k < int (length df1))"
    using Cons.prems df1(2) by simp
  from Cons.IH[OF this] obtain df' where
    df': "df_count_bows df1 bows = Inr df'" "length df' = length df1"
         "\<forall>i<length df1. df' ! i =
            df1 ! i + real (length (filter (\<lambda>b. int i \<in> set (dict_keys b)) bows))"
    by blast
  have "\<forall>i<length df. df' ! i =
          df ! i + real (length (filter (\<lambda>b. int i \<in> set (dict_keys b)) (bow # bows)))"
  proof (intro allI impI)
    fix i assume i: "i < length df"
    have "df' ! i = df1 ! i + real (length (filter (\<lambda>b. int i \<in> set (dict_keys b)) bows))"
      using df'(3) df1(2) i by simp
    moreover have "df1 ! i = df ! i + (if int i \<in> set (dict_keys bow) then 1 else 0)"
      using df1(3) i by (simp add: count_list_distinct[OF d])
    ultimately show "df' ! i =
        df ! i + real (length (filter (\<lambda>b. int i \<in> set (dict_keys b)) (bow # bows)))"
      by simp
  qed
  with df1(1,2) df'(1,2) show ?case by simp
qed

lemma document_frequency_spec:
  assumes V: "0 \<le> vocabulary_size self"
    and wf: "\<forall>bow\<in>set bows. distinct (dict_keys bow) \<and>
             (\<forall>k\<in>set (dict_keys bow). 0 \<le> k \<and> k < vocabulary_size self)"
  shows "\<exists>df. document_frequency self bows = Inr df \<and>
     length df = nat (vocabulary_size self) \<and>
     (\<forall>i<nat (vocabulary_size self). df ! i =
        real (length (filter (\<lambda>bow. int i \<in> set (dict_keys bow)) bows)))"
proof -
  let ?z = "replicate (nat (vocabulary_size self)) (0::real)"
  have z: "np_zeros (vocabulary_size self) = Inr ?z" using V by (simp add: np_zeros_def)
  have "\<forall>bow\<in>set bows. distinct (dict_keys bow) \<and>
          (\<forall>k\<in>set (dict_keys bow). 0 \<le> k \<and> k < int (length ?z))"
    using wf V by simp
  from df_count_bows_spec[OF this] obtain df where
    "df_count_bows ?z bows = Inr df" "length df = length ?z"
    "\<forall>i<length ?z. df ! i =
        ?z ! i + real (length (filter (\<lambda>bow. int i \<in> set (dict_keys bow)) bows))"
    by blast
  then show ?thesis by (simp add: document_frequency_def z)
qed

text \<open>
  Claim C1, as stated, fails in its last part: with the document frequency between 0
  and \<open>N\<close> the ratio \<open>(N + 1) / (df + 1)\<close> is at least 1, so the weight is never
  negative. At the nearest a document frequency comes to \<open>N\<close> (one histogram holding
  word 0, \<open>df[0] = N = 1\<close>) the stored weight is 0.
\<close>

theorem compute_idf_negative_counterexample:
  "document_frequency (init_builder 1 1) [[(0, 1)]] = Inr [1] \<and>
   compute_idf (init_builder 1 1) [[(0, 1)]] =
     Inr ((init_builder 1 1)\<lparr>idf_weights := Some [0]\<rparr>)"
  by (simp add: compute_idf_def document_frequency_def np_zeros_def init_builder_def
      dict_keys_def df_increment_def np_index_def)

text \<open>
  Claim C1, amended. For every list of \<open>N\<close> histograms (dictionaries, so with distinct
  keys) whose word-ids lie in \<open>[0, vocabulary_size)\<close>, \<open>compute_idf\<close> returns, and for
  every word-id \<open>w\<close> in that range: \<open>df[w]\<close> is the number of histograms whose key set
  contains \<open>w\<close>, hence \<open>0 \<le> df[w] \<le> N\<close>; the stored weight is exactly
  \<open>ln((N + 1) / (df[w] + 1))\<close>, with no clamping; and that weight is never negative,
  being 0 exactly when \<open>df[w] = N\<close>.
\<close>

theorem compute_idf_document_frequency:
  assumes "0 \<le> vocabulary_size self"
    and "\<forall>bow\<in>set bows. distinct (dict_keys bow) \<and>
           (\<forall>k\<in>set (dict_keys bow). 0 \<le> k \<and> k < vocabulary_size self)"
  shows "\<exists>df idf. document_frequency self bows = Inr df \<and>
     compute_idf self bows = Inr (self\<lparr>idf_weights := Some idf\<rparr>) \<and>
     length df = nat (vocabulary_size self) \<and> length idf = nat (vocabulary_size self) \<and>
     (\<forall>w. 0 \<le> w \<and> w < vocabulary_size self \<longrightarrow>
        df ! nat w = real (length (filter (\<lambda>bow. w \<in> set (dict_keys bow)) bows)) \<and>
        0 \<le> df ! nat w \<and> df ! nat w \<le> real (length bows) \<and>
        idf ! nat w = ln ((real (length bows) + 1) / (df ! nat w + 1)) \<and>
        0 \<le> idf ! nat w \<and>
        (idf ! nat w = 0 \<longleftrightarrow> df ! nat w = real (length bows)))"
proof -
  from document_frequency_spec[OF assms] obtain df where
    df: "document_frequency self bows = Inr df" "length df = nat (vocabulary_size self)"
        "\<forall>i<nat (vocabulary_size self). df ! i =
           real (length (filter (\<lambda>bow. int i \<in> set (dict_keys bow)) bows))"
    by blast
  let ?N = "real (length bows)"
  let ?idf = "map (\<lambda>d. ln ((?N + 1) / (d + 1))) df"
  have c: "compute_idf self bows = Inr (self\<lparr>idf_weights := Some ?idf\<rparr>)"
    by (simp add: compute_idf_def df(1))
  have "\<forall>w. 0 \<le> w \<and> w < vocabulary_size self \<longrightarrow>
        df ! nat w = real (length (filter (\<lambda>bow. w \<in> set (dict_keys bow)) bows)) \<and>
        0 \<le> df ! nat w \<and> df ! nat w \<le> ?N \<and>
        ?idf ! nat w = ln ((?N + 1) / (df ! nat w + 1)) \<and>
        0 \<le> ?idf ! nat w \<and>
        (?idf ! nat w = 0 \<longleftrightarrow> df ! nat w = ?N)"
  proof (intro allI impI)
    fix w assume w: "0 \<le> w \<and> w < vocabulary_size self"
    then have i: "nat w < nat (vocabulary_size self)" by simp
    have dfw: "df ! nat w = real (length (filter (\<lambda>bow. w \<in> set (dict_keys bow)) bows))"
      using df(3) i w by simp
    have lo: "0 \<le> df ! nat w" using dfw by simp
    have hi: "df ! nat w \<le> ?N" unfolding dfw by simp
    have nth: "?idf ! nat w = ln ((?N + 1) / (df ! nat w + 1))"
      using i df(2) by simp
    have ratio: "1 \<le> (?N + 1) / (df ! nat w + 1)" using lo hi by simp
    have pos: "0 \<le> ?idf ! nat w" unfolding nth using ratio by simp
    have "ln ((?N + 1) / (df ! nat w + 1)) = 0 \<longleftrightarrow> (?N + 1) / (df ! nat w + 1) = 1"
      using ratio by (intro ln_eq_zero_iff) simp
    also have "\<dots> \<longleftrightarrow> df ! nat w = ?N" using lo by (simp add: field_simps)
    finally have z: "?idf ! nat w = 0 \<longleftrightarrow> df ! nat w = ?N" unfolding nth .
    from dfw lo hi nth pos z
    show "df ! nat w = real (length (filter (\<lambda>bow. w \<in> set (dict_keys bow)) bows)) \<and>
        0 \<le> df ! nat w \<and> df ! nat w \<le> ?N \<and>
        ?idf ! nat w = ln ((?N + 1) / (df ! nat w + 1)) \<and>
        0 \<le> ?idf ! nat w \<and>
        (?idf ! nat w = 0 \<longleftrightarrow> df ! nat w = ?N)"
      by blast
  qed
  moreover have "length ?idf = nat (vocabulary_size self)" using df(2) by simp
  ultimately show ?thesis using df(1,2) c by blast
qed

theorem compute_idf_document_frequency_witness:
  "document_frequency (init_builder 2 1) [[(0, 1)], [(0, 2), (1, 1)]] = Inr [2, 1] \<and>
   compute_idf (init_builder 2 1) [[(0, 1)], [(0, 2), (1, 1)]] =
     Inr ((init_builder 2 1)\<lparr>idf_weights := Some [0, ln (3 / 2)]\<rparr>)"
proof -
  let ?bows = "[[(0, 1)], [(0, 2), (1, 1)]] :: int dict list"
  have V: "0 \<le> vocabulary_size (init_builder 2 1)" by (simp add: init_builder_def)
  have wf: "\<forall>bow\<in>set ?bows. distinct (dict_keys bow) \<and>
      (\<forall>k\<in>set (dict_keys bow). 0 \<le> k \<and> k < vocabulary_size (init_builder 2 1))"
    by (simp add: dict_keys_def init_builder_def)
  from compute_idf_document_frequency[OF V wf]
  obtain df idf where "document_frequency (init_builder 2 1) ?bows = Inr df"
    "compute_idf (init_builder 2 1) ?bows = Inr ((init_builder 2 1)\<lparr>idf_weights := Some idf\<rparr>)"
    by blast
  moreover have df: "document_frequency (init_builder 2 1) ?bows = Inr [2, 1]"
    by (simp add: document_frequency_def np_zeros_def init_builder_def
        dict_keys_def df_increment_def np_index_def numeral_2_eq_2)
  moreover have "compute_idf (init_builder 2 1) ?bows =
      Inr ((init_builder 2 1)\<lparr>idf_weights := Some [0, ln (3 / 2)]\<rparr>)"
    by (simp add: compute_idf_def df)
  ultimately show ?thesis by simp
qed

lemma update_fresh:
  "k \<notin> fst ` set al \<Longrightarrow> AList.update k v al = al @ [(k, v)]"
  by (induction al) auto

lemma dict_keys_dict_set:
  "set (dict_keys (dict_set d k v)) = insert k (set (dict_keys d))"
  using dom_update[of k v d] by (simp add: dict_keys_def dict_set_def)

lemma distinct_dict_set:
  "distinct (dict_keys d) \<Longrightarrow> distinct (dict_keys (dict_set d k v))"
  by (simp add: dict_keys_def dict_set_def distinct_update)

lemma sum_dict_set_bump:
  "distinct (dict_keys d) \<Longrightarrow>
   sum_list (map snd (dict_set d k (dict_get d k 0 + 1))) = sum_list (map snd d) + (1::int)"
proof (induction d)
  case Nil
  then show ?case by (simp add: dict_set_def dict_get_def)
next
  case (Cons p d)
  obtain k' v' where p: "p = (k', v')" by (cases p)
  show ?case
  proof (cases "k' = k")
    case True
    then show ?thesis by (simp add: p dict_set_def dict_get_def)
  next
    case False
    have "distinct (dict_keys d)" using Cons.prems by (simp add: dict_keys_def)
    from Cons.IH[OF this] False show ?thesis
      by (simp add: p dict_set_def dict_get_def)
  qed
qed

lemma dict_get_positive:
  assumes "\<forall>c\<in>snd ` set d. 1 \<le> c"
  shows "0 \<le> dict_get d k (0::int)"
proof (cases "map_of d k")
  case None
  then show ?thesis by (simp add: dict_get_def)
next
  case (Some v)
  then have "(k, v) \<in> set d" by (rule map_of_SomeD)
  then have "v \<in> snd ` set d" by force
  with \<open>\<forall>c\<in>snd ` set d. 1 \<le> c\<close> have "1 \<le> v" by blast
  with Some show ?thesis by (simp add: dict_get_def)
qed

lemma values_dict_set:
  "snd ` set (dict_set d k v) \<subseteq> insert v (snd ` set d)"
  unfolding dict_set_def by (induction d) auto

lemma bow_loop_spec:
  assumes ne: "words \<noteq> []"
    and wl: "\<forall>word\<in>set words. length word = L"
    and dl: "\<forall>desc\<in>set descs. length desc = L"
    and dist: "distinct (dict_keys bow)"
    and rng: "\<forall>k\<in>set (dict_keys bow). 0 \<le> k \<and> k < int (length words)"
    and pos: "\<forall>c\<in>snd ` set bow. 1 \<le> c"
  shows "\<exists>bow'. bow_loop (Some words) descs bow = Inr bow' \<and>
     distinct (dict_keys bow') \<and>
     (\<forall>k\<in>set (dict_keys bow'). 0 \<le> k \<and> k < int (length words)) \<and>
     (\<forall>c\<in>snd ` set bow'. 1 \<le> c) \<and>
     sum_list (map snd bow') = sum_list (map snd bow) + int (length descs)"
  using dl dist rng pos
proof (induction descs arbitrary: bow)
  case Nil
  then show ?case by simp
next
  case (Cons desc rest)
  have "\<forall>word\<in>set words. length word = length desc" using wl Cons.prems(1) by simp
  from quantize_descriptor_argmin[OF ne this] obtain w where
    w: "w < length words" "quantize_descriptor desc words = Inr (int w)" by blast
  let ?bow1 = "dict_set bow (int w) (dict_get bow (int w) 0 + 1)"
  have d1: "distinct (dict_keys ?bow1)" using Cons.prems(2) by (rule distinct_dict_set)
  have r1: "\<forall>k\<in>set (dict_keys ?bow1). 0 \<le> k \<and> k < int (length words)"
    using Cons.prems(3) w(1) by (simp add: dict_keys_dict_set)
  have bump: "1 \<le> dict_get bow (int w) 0 + 1"
    using dict_get_positive[OF Cons.prems(4), of "int w"] by simp
  have p1: "\<forall>c\<in>snd ` set ?bow1. 1 \<le> c"
  proof
    fix c assume "c \<in> snd ` set ?bow1"
    with values_dict_set[of bow "int w" "dict_get bow (int w) 0 + 1"]
    have "c \<in> insert (dict_get bow (int w) 0 + 1) (snd ` set bow)" by (rule subsetD)
    then show "1 \<le> c"
    proof (rule insertE)
      assume "c = dict_get bow (int w) 0 + 1"
      with bump show ?thesis by simp
    next
      assume "c \<in> snd ` set bow"
      with Cons.prems(4) show ?thesis by (rule bspec)
    qed
  qed
  have s1: "sum_list (map snd ?bow1) = sum_list (map snd bow) + 1"
    using Cons.prems(2) by (rule sum_dict_set_bump)
  have "\<forall>d\<in>set rest. length d = L" using Cons.prems(1) by simp
  from Cons.IH[OF this d1 r1 p1] obtain bow' where r:
    "bow_loop (Some words) rest ?bow1 = Inr bow'" "distinct (dict_keys bow')"
    "\<forall>k\<in>set (dict_keys bow'). 0 \<le> k \<and> k < int (length words)"
    "\<forall>c\<in>snd ` set bow'. 1 \<le> c"
    "sum_list (map snd bow') = sum_list (map snd ?bow1) + int (length rest)"
    by blast
  have f1: "bow_loop (Some words) (desc # rest) bow = Inr bow'"
    using w(2) r(1) by simp
  have f5: "sum_list (map snd bow') = sum_list (map snd bow) + int (length (desc # rest))"
    using r(5) s1 by simp
  show ?case
    by (rule exI[of _ bow'], intro conjI) (fact f1 r(2) r(3) r(4) f5)+
qed

lemma descriptors_to_bow_spec:
  assumes "vocabulary self = Some words" "words \<noteq> []"
    and "\<forall>word\<in>set words. length word = L"
    and "\<forall>desc\<in>set descs. length desc = L"
  shows "\<exists>bow. descriptors_to_bow self descs = Inr bow \<and>
     distinct (dict_keys bow) \<and>
     (\<forall>k\<in>set (dict_keys bow). 0 \<le> k \<and> k < int (length words)) \<and>
     (\<forall>c\<in>snd ` set bow. 1 \<le> c) \<and>
     sum_list (map snd bow) = int (length descs)"
proof -
  have "\<exists>bow'. bow_loop (Some words) descs [] = Inr bow' \<and>
     distinct (dict_keys bow') \<and>
     (\<forall>k\<in>set (dict_keys bow'). 0 \<le> k \<and> k < int (length words)) \<and>
     (\<forall>c\<in>snd ` set bow'. 1 \<le> c) \<and>
     sum_list (map snd bow') = sum_list (map snd ([] :: int dict)) + int (length descs)"
    by (rule bow_loop_spec[OF assms(2,3,4)]) (simp_all add: dict_keys_def)
  then show ?thesis by (simp add: descriptors_to_bow_def assms(1))
qed

lemma tfidf_loop_result:
  assumes "tfidf_loop weights nf bow acc = Inr tfidf"
    and "distinct (dict_keys bow)"
    and "set (dict_keys bow) \<inter> set (dict_keys acc) = {}"
  shows "\<exists>ys. tfidf = acc @ ys \<and> list_all2 (weighted weights nf) bow ys \<and>
           (bow \<noteq> [] \<longrightarrow> nf \<noteq> 0)"
  using assms
proof (induction bow arbitrary: acc)
  case Nil
  then show ?case by simp
next
  case (Cons e rest)
  obtain w c where e: "e = (w, c)" by (cases e)
  from Cons.prems(1) have nf: "nf \<noteq> 0"
    by (auto simp: e split: if_splits)
  from Cons.prems(1) nf obtain idf where
    idf: "idf_lookup weights w = Inr idf"
    and rec: "tfidf_loop weights nf rest
                (dict_set acc w (real_of_int c / real_of_int nf * idf)) = Inr tfidf"
    by (auto simp: e split: sum.splits)
  have fresh: "w \<notin> fst ` set acc"
    using Cons.prems(3) by (auto simp: e dict_keys_def)
  then have upd: "dict_set acc w (real_of_int c / real_of_int nf * idf) =
      acc @ [(w, real_of_int c / real_of_int nf * idf)]"
    by (simp add: dict_set_def update_fresh)
  have d: "distinct (dict_keys rest)" using Cons.prems(2) by (simp add: dict_keys_def)
  have disj: "set (dict_keys rest) \<inter>
      set (dict_keys (acc @ [(w, real_of_int c / real_of_int nf * idf)])) = {}"
    using Cons.prems(2,3) by (auto simp: e dict_keys_def)
  from Cons.IH[OF rec[unfolded upd] d disj] obtain ys where
    ys: "tfidf = (acc @ [(w, real_of_int c / real_of_int nf * idf)]) @ ys"
        "list_all2 (weighted weights nf) rest ys"
    by blast
  have "weighted weights nf e (w, real_of_int c / real_of_int nf * idf)"
    using idf by (simp add: weighted_def e)
  with ys nf show ?case
    by (intro exI[of _ "(w, real_of_int c / real_of_int nf * idf) # ys"]) simp
qed

lemma tfidf_loop_total:
  assumes "nf \<noteq> 0" and "\<forall>k\<in>set (dict_keys bow). \<exists>v. idf_lookup weights k = Inr v"
  shows "\<exists>tfidf. tfidf_loop weights nf bow acc = Inr tfidf"
  using assms(2)
proof (induction bow arbitrary: acc)
  case Nil
  then show ?case by simp
next
  case (Cons e rest)
  obtain w c where e: "e = (w, c)" by (cases e)
  from Cons.prems obtain v where v: "idf_lookup weights w = Inr v"
    by (auto simp: e dict_keys_def)
  have "\<forall>k\<in>set (dict_keys rest). \<exists>v. idf_lookup weights k = Inr v"
    using Cons.prems by (simp add: dict_keys_def)
  from Cons.IH[OF this] show ?case using assms(1) v by (simp add: e)
qed

lemma weighted_keys:
  "list_all2 (weighted weights nf) bow ys \<Longrightarrow> dict_keys ys = dict_keys bow"
  by (induction rule: list_all2_induct) (simp_all add: dict_keys_def weighted_def)

lemma weighted_support:
  assumes "list_all2 (weighted weights nf) bow ys" and "nf \<noteq> 0"
  shows "(\<exists>v. (w, v) \<in> set ys \<and> v \<noteq> 0) \<longleftrightarrow>
         (\<exists>c. (w, c) \<in> set bow \<and> c \<noteq> 0 \<and> idf_lookup weights w \<noteq> Inr 0)"
  using assms(1)
proof (induction rule: list_all2_induct)
  case Nil
  then show ?case by simp
next
  case (Cons e bow r ys)
  obtain w' c' where e: "e = (w', c')" by (cases e)
  obtain w'' v' where r: "r = (w'', v')" by (cases r)
  from Cons.hyps(1) obtain idf where
    h: "w'' = w'" "idf_lookup weights w' = Inr idf"
       "v' = real_of_int c' / real_of_int nf * idf"
    by (auto simp: weighted_def e r)
  have head: "v' \<noteq> 0 \<longleftrightarrow> c' \<noteq> 0 \<and> idf_lookup weights w' \<noteq> Inr 0"
    using h(2,3) assms(2) by simp
  have "(\<exists>v. (w, v) \<in> set (r # ys) \<and> v \<noteq> 0) \<longleftrightarrow>
        (w = w' \<and> v' \<noteq> 0) \<or> (\<exists>v. (w, v) \<in> set ys \<and> v \<noteq> 0)"
    using h(1) by (auto simp: r)
  also have "\<dots> \<longleftrightarrow> (w = w' \<and> c' \<noteq> 0 \<and> idf_lookup weights w' \<noteq> Inr 0) \<or>
        (\<exists>c. (w, c) \<in> set bow \<and> c \<noteq> 0 \<and> idf_lookup weights w \<noteq> Inr 0)"
    using head Cons.IH by simp
  also have "\<dots> \<longleftrightarrow>
        (\<exists>c. (w, c) \<in> set (e # bow) \<and> c \<noteq> 0 \<and> idf_lookup weights w \<noteq> Inr 0)"
    by (auto simp: e)
  finally show ?case .
qed

text \<open>
  Claim C6, as stated, fails in its second part: a word that occurs in every target has
  \<open>df = N\<close> and IDF weight \<open>ln 1 = 0\<close>, so its TF-IDF weight is 0 although its count is
  not. With a single target whose histogram is \<open>{0: 1}\<close> the vector is \<open>{0: 0.0}\<close>.
\<close>

theorem tfidf_support_counterexample:
  "(case compute_idf (init_builder 1 1) [[(0, 1)]] of
      Inl e \<Rightarrow> Inl e
    | Inr self' \<Rightarrow> compute_tfidf_vector self' [(0, 1)] 1) = Inr [(0, 0)]"
  by (simp add: compute_idf_def document_frequency_def np_zeros_def init_builder_def
      dict_keys_def df_increment_def np_index_def compute_tfidf_vector_def idf_lookup_def
      dict_set_def)

text \<open>
  Claim C6, amended. Whenever \<open>compute_tfidf_vector\<close> returns for a histogram, the
  TF-IDF vector has exactly the key set of the histogram (the same keys in the same
  order), and a word-id has a non-zero TF-IDF weight if and only if it has a non-zero
  histogram count and its IDF weight is not 0: the support of the vector is the
  support of the histogram without the words of IDF weight 0.
\<close>

theorem compute_tfidf_vector_support:
  assumes "distinct (dict_keys bow)"
    and "compute_tfidf_vector self bow nf = Inr tfidf"
  shows "dict_keys tfidf = dict_keys bow \<and>
     (\<forall>w. (\<exists>v. (w, v) \<in> set tfidf \<and> v \<noteq> 0) \<longleftrightarrow>
          (\<exists>c. (w, c) \<in> set bow \<and> c \<noteq> 0 \<and> idf_lookup (idf_weights self) w \<noteq> Inr 0))"
proof -
  have "tfidf_loop (idf_weights self) nf bow [] = Inr tfidf"
    using assms(2) by (simp add: compute_tfidf_vector_def)
  from tfidf_loop_result[OF this assms(1)] obtain ys where
    ys: "tfidf = ys" "list_all2 (weighted (idf_weights self) nf) bow ys"
        "bow \<noteq> [] \<longrightarrow> nf \<noteq> 0"
    by (auto simp: dict_keys_def)
  show ?thesis
  proof (cases "bow = []")
    case True
    with ys show ?thesis by (simp add: dict_keys_def)
  next
    case False
    with ys(3) have "nf \<noteq> 0" by simp
    with ys(1,2) show ?thesis
      using weighted_keys weighted_support by blast
  qed
qed

theorem compute_tfidf_vector_support_witness:
  "compute_tfidf_vector ((init_builder 2 1)\<lparr>idf_weights := Some [0, 1]\<rparr>)
     [(0, 2), (1, 3)] 5 = Inr [(0, 0), (1, 3 / 5)] \<and>
   dict_keys [(0, 0 :: real), (1, 3 / 5)] = dict_keys [(0, 2 :: int), (1, 3)]"
proof -
  let ?self = "(init_builder 2 1)\<lparr>idf_weights := Some [0, 1]\<rparr>"
  have d: "distinct (dict_keys [(0, 2 :: int), (1, 3)])" by (simp add: dict_keys_def)
  have r: "compute_tfidf_vector ?self [(0, 2), (1, 3)] 5 = Inr [(0, 0), (1, 3 / 5)]"
    by (simp add: compute_tfidf_vector_def idf_lookup_def np_index_def dict_set_def)
  from compute_tfidf_vector_support[OF d r] r show ?thesis by simp
qed

section \<open>Properties of the feature budgeter\<close>

lemma cell_members_snoc:
  "grid_cell cell_h cell_w (kps ! idx) = Inr c \<Longrightarrow>
   length (cell_members cell_h cell_w kps c' (sel @ [idx])) =
   length (cell_members cell_h cell_w kps c' sel) + (if c' = c then 1 else 0)"
  by (auto simp: cell_members_def)

lemma first_pass_spec:
  assumes cells: "\<forall>idx\<in>set rest. \<exists>c. grid_cell cell_h cell_w (kps ! idx) = Inr c"
    and dr: "distinct rest" and ds: "distinct sel" and disj: "set rest \<inter> set sel = {}"
    and cnt: "\<forall>c. cc c = int (length (cell_members cell_h cell_w kps c sel))"
    and quota: "\<forall>c. cc c \<le> max fpc 0"
    and room: "int (length sel) < budget"
  shows "\<exists>sel' cc' ys. first_pass budget fpc cell_h cell_w kps rest sel cc = Inr (sel', cc') \<and>
      sel' = sel @ ys \<and> subseq ys rest \<and> distinct sel' \<and>
      (\<forall>c. cc' c = int (length (cell_members cell_h cell_w kps c sel'))) \<and>
      (\<forall>c. cc' c \<le> max fpc 0) \<and> (\<forall>c. cc c \<le> cc' c) \<and>
      int (length sel') \<le> budget \<and>
      (int (length sel') < budget \<longrightarrow>
         (\<forall>idx\<in>set rest. \<forall>c. grid_cell cell_h cell_w (kps ! idx) = Inr c \<and> cc' c < fpc
            \<longrightarrow> idx \<in> set sel'))"
  using assms
proof (induction rest arbitrary: sel cc)
  case Nil
  then show ?case by simp
next
  case (Cons idx rest)
  from Cons.prems(1) obtain c where c: "grid_cell cell_h cell_w (kps ! idx) = Inr c"
    by auto
  have cells': "\<forall>i\<in>set rest. \<exists>c. grid_cell cell_h cell_w (kps ! i) = Inr c"
    using Cons.prems(1) by simp
  have dr': "distinct rest" and idx_rest: "idx \<notin> set rest"
    using Cons.prems(2) by simp_all
  have idx_sel: "idx \<notin> set sel" using Cons.prems(4) by auto
  have disj': "set rest \<inter> set sel = {}" using Cons.prems(4) by auto
  show ?case
  proof (cases "cc c < fpc")
    case True
    let ?sel1 = "sel @ [idx]"
    let ?cc1 = "cc(c := cc c + 1)"
    have ds1: "distinct ?sel1" using Cons.prems(3) idx_sel by simp
    have cnt1: "\<forall>c'. ?cc1 c' = int (length (cell_members cell_h cell_w kps c' ?sel1))"
    proof
      fix c'
      show "?cc1 c' = int (length (cell_members cell_h cell_w kps c' ?sel1))"
        using Cons.prems(5)[rule_format, of c'] cell_members_snoc[OF c, of c' sel]
        by (cases "c' = c") simp_all
    qed
    have quota1: "\<forall>c'. ?cc1 c' \<le> max fpc 0"
    proof
      fix c'
      show "?cc1 c' \<le> max fpc 0"
        using Cons.prems(6)[rule_format, of c'] True by (cases "c' = c") simp_all
    qed
    have mono1: "\<forall>c'. cc c' \<le> ?cc1 c'" by simp
    show ?thesis
    proof (cases "budget \<le> int (length ?sel1)")
      case full: True
      have fp: "first_pass budget fpc cell_h cell_w kps (idx # rest) sel cc = Inr (?sel1, ?cc1)"
        using c True full by simp
      have len: "int (length ?sel1) \<le> budget" using Cons.prems(7) by simp
      have nlt: "\<not> int (length ?sel1) < budget" using full by simp
      have sub: "subseq [idx] (idx # rest)" by simp
      have "?sel1 = sel @ [idx]" by simp
      with fp sub ds1 cnt1 quota1 mono1 len nlt show ?thesis by blast
    next
      case notfull: False
      have fp: "first_pass budget fpc cell_h cell_w kps (idx # rest) sel cc =
                first_pass budget fpc cell_h cell_w kps rest ?sel1 ?cc1"
        using c True notfull by simp
      have disj1: "set rest \<inter> set ?sel1 = {}" using disj' idx_rest by auto
      have room1: "int (length ?sel1) < budget" using notfull by simp
      from Cons.IH[OF cells' dr' ds1 disj1 cnt1 quota1 room1]
      obtain sel' cc' ys where r:
        "first_pass budget fpc cell_h cell_w kps rest ?sel1 ?cc1 = Inr (sel', cc')"
        "sel' = ?sel1 @ ys" "subseq ys rest" "distinct sel'"
        "\<forall>c. cc' c = int (length (cell_members cell_h cell_w kps c sel'))"
        "\<forall>c. cc' c \<le> max fpc 0" "\<forall>c'. ?cc1 c' \<le> cc' c'"
        "int (length sel') \<le> budget"
        "int (length sel') < budget \<longrightarrow>
           (\<forall>i\<in>set rest. \<forall>c. grid_cell cell_h cell_w (kps ! i) = Inr c \<and> cc' c < fpc
              \<longrightarrow> i \<in> set sel')"
        by blast
      have a: "sel' = sel @ (idx # ys)" using r(2) by simp
      have b: "subseq (idx # ys) (idx # rest)" using r(3) by simp
      have m: "\<forall>c'. cc c' \<le> cc' c'"
      proof
        fix c' show "cc c' \<le> cc' c'"
          using mono1[rule_format, of c'] r(7)[rule_format, of c'] by (rule order_trans)
      qed
      have e: "int (length sel') < budget \<longrightarrow>
           (\<forall>i\<in>set (idx # rest). \<forall>c. grid_cell cell_h cell_w (kps ! i) = Inr c \<and> cc' c < fpc
              \<longrightarrow> i \<in> set sel')"
        using r(9) a by simp
      have f1: "first_pass budget fpc cell_h cell_w kps (idx # rest) sel cc = Inr (sel', cc')"
        using fp r(1) by simp
      show ?thesis
        by (rule exI[of _ sel'], rule exI[of _ cc'], rule exI[of _ "idx # ys"], intro conjI)
          (fact f1 a b r(4) r(5) r(6) m r(8) e)+
    qed
  next
    case False
    have fp: "first_pass budget fpc cell_h cell_w kps (idx # rest) sel cc =
              first_pass budget fpc cell_h cell_w kps rest sel cc"
      using c False by simp
    from Cons.IH[OF cells' dr' Cons.prems(3) disj' Cons.prems(5,6,7)]
    obtain sel' cc' ys where r:
      "first_pass budget fpc cell_h cell_w kps rest sel cc = Inr (sel', cc')"
      "sel' = sel @ ys" "subseq ys rest" "distinct sel'"
      "\<forall>c. cc' c = int (length (cell_members cell_h cell_w kps c sel'))"
      "\<forall>c. cc' c \<le> max fpc 0" "\<forall>c'. cc c' \<le> cc' c'"
      "int (length sel') \<le> budget"
      "int (length sel') < budget \<longrightarrow>
         (\<forall>i\<in>set rest. \<forall>c. grid_cell cell_h cell_w (kps ! i) = Inr c \<and> cc' c < fpc
            \<longrightarrow> i \<in> set sel')"
      by blast
    have b: "subseq ys (idx # rest)" using r(3) by (rule list_emb_Cons)
    have full: "\<not> cc' c < fpc"
    proof -
      have "cc c \<le> cc' c" using r(7)[rule_format, of c] .
      with False show ?thesis by simp
    qed
    have e: "int (length sel') < budget \<longrightarrow>
         (\<forall>i\<in>set (idx # rest). \<forall>c. grid_cell cell_h cell_w (kps ! i) = Inr c \<and> cc' c < fpc
            \<longrightarrow> i \<in> set sel')"
      using r(9) full c by auto
    have f1: "first_pass budget fpc cell_h cell_w kps (idx # rest) sel cc = Inr (sel', cc')"
      using fp r(1) by simp
    show ?thesis
      by (rule exI[of _ sel'], rule exI[of _ cc'], rule exI[of _ ys], intro conjI)
        (fact f1 r(2) b r(4) r(5) r(6) r(7) r(8) e)+
  qed
qed

lemma second_pass_spec:
  assumes "distinct rest" and "distinct sel" and "int (length sel) < budget"
  shows "\<exists>ys. second_pass budget rest sel = sel @ ys \<and> subseq ys rest \<and>
           set ys \<inter> set sel = {} \<and> distinct (sel @ ys) \<and>
           int (length (sel @ ys)) \<le> budget \<and>
           (int (length (sel @ ys)) < budget \<longrightarrow> set rest \<subseteq> set (sel @ ys))"
  using assms
proof (induction rest arbitrary: sel)
  case Nil
  then show ?case by simp
next
  case (Cons idx rest)
  have dr': "distinct rest" and idx_rest: "idx \<notin> set rest" using Cons.prems(1) by simp_all
  show ?case
  proof (cases "idx \<in> set sel")
    case True
    from Cons.IH[OF dr' Cons.prems(2,3)] obtain ys where r:
      "second_pass budget rest sel = sel @ ys" "subseq ys rest" "set ys \<inter> set sel = {}"
      "distinct (sel @ ys)" "int (length (sel @ ys)) \<le> budget"
      "int (length (sel @ ys)) < budget \<longrightarrow> set rest \<subseteq> set (sel @ ys)"
      by blast
    have "second_pass budget (idx # rest) sel = sel @ ys" using True r(1) by simp
    moreover have "subseq ys (idx # rest)" using r(2) by (rule list_emb_Cons)
    moreover have "int (length (sel @ ys)) < budget \<longrightarrow> set (idx # rest) \<subseteq> set (sel @ ys)"
      using r(6) True by auto
    ultimately show ?thesis using r(3,4,5) by blast
  next
    case False
    let ?sel1 = "sel @ [idx]"
    have ds1: "distinct ?sel1" using Cons.prems(2) False by simp
    show ?thesis
    proof (cases "budget \<le> int (length ?sel1)")
      case full: True
      have "second_pass budget (idx # rest) sel = sel @ [idx]" using False full by simp
      moreover have "subseq [idx] (idx # rest)" by simp
      moreover have "set [idx] \<inter> set sel = {}" using False by simp
      moreover have "int (length (sel @ [idx])) \<le> budget" using Cons.prems(3) by simp
      moreover have "\<not> int (length (sel @ [idx])) < budget" using full by simp
      ultimately show ?thesis using ds1 by blast
    next
      case notfull: False
      have room1: "int (length ?sel1) < budget" using notfull by simp
      from Cons.IH[OF dr' ds1 room1] obtain ys where r:
        "second_pass budget rest ?sel1 = ?sel1 @ ys" "subseq ys rest"
        "set ys \<inter> set ?sel1 = {}"
        "distinct (?sel1 @ ys)" "int (length (?sel1 @ ys)) \<le> budget"
        "int (length (?sel1 @ ys)) < budget \<longrightarrow> set rest \<subseteq> set (?sel1 @ ys)"
        by blast
      have "second_pass budget (idx # rest) sel = sel @ (idx # ys)"
        using False notfull r(1) by simp
      moreover have "subseq (idx # ys) (idx # rest)" using r(2) by simp
      moreover have "set (idx # ys) \<inter> set sel = {}" using r(3) False by auto
      moreover have "distinct (sel @ (idx # ys))" using r(4) by simp
      moreover have "int (length (sel @ (idx # ys))) \<le> budget" using r(5) by simp
      moreover have "int (length (sel @ (idx # ys))) < budget \<longrightarrow>
          set (idx # rest) \<subseteq> set (sel @ (idx # ys))"
        using r(6) by auto
      ultimately show ?thesis by blast
    qed
  qed
qed

lemma sorted_indices_of_distinct: "distinct (sorted_indices_of kps)"
  by (simp add: sorted_indices_of_def np_argsort_def)

lemma sorted_indices_of_set: "set (sorted_indices_of kps) = {..<length kps}"
  by (auto simp: sorted_indices_of_def np_argsort_def)

lemma sorted_indices_of_length: "length (sorted_indices_of kps) = length kps"
  by (simp add: sorted_indices_of_def np_argsort_def)

lemma sorted_indices_of_descending:
  "sorted (map (\<lambda>i. - response (kps ! i)) (sorted_indices_of kps))"
proof -
  let ?a = "map (\<lambda>r. - r) (map response kps)"
  let ?S = "sorted_indices_of kps"
  have "sorted (map (\<lambda>i. ?a ! i) ?S)"
    unfolding sorted_indices_of_def np_argsort_def by (rule sorted_sort_key)
  moreover have "map (\<lambda>i. ?a ! i) ?S = map (\<lambda>i. - response (kps ! i)) ?S"
  proof (rule map_cong[OF refl])
    fix i assume "i \<in> set ?S"
    then have "i < length kps" by (simp add: sorted_indices_of_set)
    then show "?a ! i = - response (kps ! i)" by simp
  qed
  ultimately show ?thesis by (simp only:)
qed

lemma grid_cell_in_image:
  assumes "0 < h" "0 < w" "0 \<le> fst (pt kp)" "0 \<le> snd (pt kp)"
  shows "\<exists>cy cx. grid_cell (real h / real_of_int grid_size) (real w / real_of_int grid_size) kp
           = Inr (cy, cx) \<and> cy < 4 \<and> cx < 4"
proof -
  obtain x y where p: "pt kp = (x, y)" by (cases "pt kp")
  have x: "0 \<le> x" and y: "0 \<le> y" using assms(3,4) p by simp_all
  let ?ch = "real h / 4" and ?cw = "real w / 4"
  have ch: "0 < ?ch" and cw: "0 < ?cw" using assms(1,2) by simp_all
  have iy: "0 \<le> py_int (y / ?ch)" using y ch by (simp add: py_int_def)
  have ix: "0 \<le> py_int (x / ?cw)" using x cw by (simp add: py_int_def)
  let ?iy = "min (py_int (y / ?ch)) 3" and ?ix = "min (py_int (x / ?cw)) 3"
  have ny: "np_index 4 ?iy = Some (nat ?iy)" using iy by (simp add: np_index_def)
  have nx: "np_index 4 ?ix = Some (nat ?ix)" using ix by (simp add: np_index_def)
  have "grid_cell ?ch ?cw kp = Inr (nat ?iy, nat ?ix)"
    using ch cw ny nx by (simp add: grid_cell_def p)
  moreover have "nat ?iy < 4" "nat ?ix < 4" by simp_all
  ultimately show ?thesis by simp
qed

lemma length_distinct_covering:
  assumes "{..<n} \<subseteq> set xs"
  shows "n \<le> length xs"
proof -
  have "n = card {..<n}" by simp
  also have "\<dots> \<le> card (set xs)" using assms by (intro card_mono) simp_all
  also have "\<dots> \<le> length xs" by (rule card_length)
  finally show ?thesis .
qed

lemma select_indices_spec:
  assumes budget: "1 \<le> max_features_per_target self"
    and over: "max_features_per_target self < int (length kps)"
    and shape: "0 < h" "0 < w"
    and pos: "\<forall>kp\<in>set kps. 0 \<le> fst (pt kp) \<and> 0 \<le> snd (pt kp)"
  shows "\<exists>sel1 cc fill.
      first_pass_result self kps (h, w) = Inr (sel1, cc) \<and>
      select_indices self kps (h, w) = Inr (sel1 @ fill) \<and>
      subseq sel1 (sorted_indices_of kps) \<and> subseq fill (sorted_indices_of kps) \<and>
      distinct (sel1 @ fill) \<and>
      int (length (sel1 @ fill)) = max_features_per_target self \<and>
      (\<forall>c. cc c = int (length (cell_members (real h / 4) (real w / 4) kps c sel1))) \<and>
      (\<forall>c. cc c \<le> max_features_per_target self div 16) \<and>
      (fill \<noteq> [] \<longrightarrow> int (length sel1) < max_features_per_target self) \<and>
      (int (length sel1) < max_features_per_target self \<longrightarrow>
         (\<forall>i<length kps. \<forall>c. grid_cell (real h / 4) (real w / 4) (kps ! i) = Inr c \<and>
              cc c < max_features_per_target self div 16 \<longrightarrow> i \<in> set sel1))"
proof -
  let ?B = "max_features_per_target self"
  let ?q = "?B div 16"
  let ?ch = "real h / 4" and ?cw = "real w / 4"
  let ?S = "sorted_indices_of kps"
  have q0: "max ?q 0 = ?q" using budget by simp
  have cells: "\<forall>idx\<in>set ?S. \<exists>c. grid_cell ?ch ?cw (kps ! idx) = Inr c"
  proof
    fix idx assume "idx \<in> set ?S"
    then have "idx < length kps" by (simp add: sorted_indices_of_set)
    then have "kps ! idx \<in> set kps" by simp
    with pos have "0 \<le> fst (pt (kps ! idx))" "0 \<le> snd (pt (kps ! idx))" by simp_all
    from grid_cell_in_image[OF shape this]
    show "\<exists>c. grid_cell ?ch ?cw (kps ! idx) = Inr c" by auto
  qed
  have cnt0: "\<forall>c. (\<lambda>c. 0 :: int) c = int (length (cell_members ?ch ?cw kps c []))"
    by (simp add: cell_members_def)
  have quota0: "\<forall>c. (\<lambda>c. 0 :: int) c \<le> max ?q 0" by simp
  have room0: "int (length ([] :: nat list)) < ?B" using budget by simp
  have "\<exists>sel' cc' ys. first_pass ?B ?q ?ch ?cw kps ?S [] (\<lambda>c. 0) = Inr (sel', cc') \<and>
      sel' = [] @ ys \<and> subseq ys ?S \<and> distinct sel' \<and>
      (\<forall>c. cc' c = int (length (cell_members ?ch ?cw kps c sel'))) \<and>
      (\<forall>c. cc' c \<le> max ?q 0) \<and> (\<forall>c. (\<lambda>c. 0 :: int) c \<le> cc' c) \<and>
      int (length sel') \<le> ?B \<and>
      (int (length sel') < ?B \<longrightarrow>
         (\<forall>idx\<in>set ?S. \<forall>c. grid_cell ?ch ?cw (kps ! idx) = Inr c \<and> cc' c < ?q
            \<longrightarrow> idx \<in> set sel'))"
    by (rule first_pass_spec[OF cells sorted_indices_of_distinct _ _ cnt0 quota0 room0])
       simp_all
  then obtain sel1 cc where fp:
      "first_pass ?B ?q ?ch ?cw kps ?S [] (\<lambda>c. 0) = Inr (sel1, cc)"
      "subseq sel1 ?S" "distinct sel1"
      "\<forall>c. cc c = int (length (cell_members ?ch ?cw kps c sel1))"
      "\<forall>c. cc c \<le> max ?q 0"
      "int (length sel1) \<le> ?B"
      "int (length sel1) < ?B \<longrightarrow>
         (\<forall>idx\<in>set ?S. \<forall>c. grid_cell ?ch ?cw (kps ! idx) = Inr c \<and> cc c < ?q
            \<longrightarrow> idx \<in> set sel1)"
    by auto
  have fpr: "first_pass_result self kps (h, w) = Inr (sel1, cc)"
    using fp(1) by (simp add: first_pass_result_def)
  have quota: "\<forall>c. cc c \<le> ?q" using fp(5) q0 by simp
  have complete: "int (length sel1) < ?B \<longrightarrow>
         (\<forall>i<length kps. \<forall>c. grid_cell ?ch ?cw (kps ! i) = Inr c \<and> cc c < ?q
            \<longrightarrow> i \<in> set sel1)"
    using fp(7) by (simp add: sorted_indices_of_set)
  show ?thesis
  proof (cases "int (length sel1) < ?B")
    case True
    from second_pass_spec[OF sorted_indices_of_distinct fp(3) True]
    obtain ys where sp:
      "second_pass ?B ?S sel1 = sel1 @ ys" "subseq ys ?S"
      "distinct (sel1 @ ys)" "int (length (sel1 @ ys)) \<le> ?B"
      "int (length (sel1 @ ys)) < ?B \<longrightarrow> set ?S \<subseteq> set (sel1 @ ys)"
      by blast
    have si: "select_indices self kps (h, w) = Inr (sel1 @ ys)"
      using fpr True sp(1) by (simp add: select_indices_def)
    have len: "int (length (sel1 @ ys)) = ?B"
    proof (rule ccontr)
      assume "int (length (sel1 @ ys)) \<noteq> ?B"
      with sp(4) have lt: "int (length (sel1 @ ys)) < ?B" by simp
      with sp(5) have "{..<length kps} \<subseteq> set (sel1 @ ys)"
        by (simp add: sorted_indices_of_set)
      then have "length kps \<le> length (sel1 @ ys)" by (rule length_distinct_covering)
      with lt over show False by simp
    qed
    have nf: "ys \<noteq> [] \<longrightarrow> int (length sel1) < ?B" using True by simp
    show ?thesis
      by (rule exI[of _ sel1], rule exI[of _ cc], rule exI[of _ ys], intro conjI)
        (fact fpr si fp(2) sp(2) sp(3) len fp(4) quota nf complete)+
  next
    case False
    have si: "select_indices self kps (h, w) = Inr (sel1 @ [])"
      using fpr False by (simp add: select_indices_def)
    have sub: "subseq [] ?S" by simp
    have d: "distinct (sel1 @ [])" using fp(3) by simp
    have len: "int (length (sel1 @ [])) = ?B" using False fp(6) by simp
    have nf: "([] :: nat list) \<noteq> [] \<longrightarrow> int (length sel1) < ?B" by simp
    show ?thesis
      by (rule exI[of _ sel1], rule exI[of _ cc], rule exI[of _ "[]"], intro conjI)
        (fact fpr si fp(2) sub d len fp(4) quota nf complete)+
  qed
qed

lemma np_take_in_range:
  assumes "idxs \<noteq> []" and "\<forall>i\<in>set idxs. i < length a"
  shows "np_take a idxs = Inr (map (\<lambda>i. a ! i) idxs)"
  using assms by (simp add: np_take_def list_all_iff)

lemma select_best_features_slow:
  assumes budget: "1 \<le> max_features_per_target self"
    and lk: "length keypoints = length kps" and ld: "length descriptors = length kps"
    and over: "max_features_per_target self < int (length kps)"
    and si: "select_indices self kps shape = Inr sel"
    and len: "int (length sel) = max_features_per_target self"
    and rng: "set sel \<subseteq> {..<length kps}"
  shows "select_best_features self keypoints descriptors kps shape =
     Inr (map (\<lambda>i. keypoints ! i) sel, map (\<lambda>i. descriptors ! i) sel, map (\<lambda>i. kps ! i) sel)"
proof -
  have ne: "sel \<noteq> []" using len budget by auto
  have "\<forall>i\<in>set sel. i < length keypoints" using rng lk by auto
  then have tk: "np_take keypoints sel = Inr (map (\<lambda>i. keypoints ! i) sel)"
    by (rule np_take_in_range[OF ne])
  have "\<forall>i\<in>set sel. i < length descriptors" using rng ld by auto
  then have td: "np_take descriptors sel = Inr (map (\<lambda>i. descriptors ! i) sel)"
    by (rule np_take_in_range[OF ne])
  have "\<not> int (length keypoints) \<le> max_features_per_target self" using over lk by simp
  then show ?thesis by (simp add: select_best_features_def si tk td)
qed

lemma subseq_sorted_indices_range:
  assumes "subseq xs (sorted_indices_of kps)"
  shows "set xs \<subseteq> {..<length kps}"
proof
  fix x assume "x \<in> set xs"
  with assms obtain y where "y \<in> set (sorted_indices_of kps)" "x = y"
    by (rule list_emb_set)
  then show "x \<in> {..<length kps}" by (simp add: sorted_indices_of_set)
qed

lemma select_best_features_spec:
  assumes budget: "1 \<le> max_features_per_target self"
    and lk: "length keypoints = length kps" and ld: "length descriptors = length kps"
    and shape: "0 < h" "0 < w"
    and pos: "\<forall>kp\<in>set kps. 0 \<le> fst (pt kp) \<and> 0 \<le> snd (pt kp)"
  shows "\<exists>sel. distinct sel \<and> set sel \<subseteq> {..<length kps} \<and>
     int (length sel) = min (int (length kps)) (max_features_per_target self) \<and>
     select_best_features self keypoints descriptors kps (h, w) =
       Inr (map (\<lambda>i. keypoints ! i) sel, map (\<lambda>i. descriptors ! i) sel,
            map (\<lambda>i. kps ! i) sel) \<and>
     (int (length kps) \<le> max_features_per_target self \<longrightarrow> sel = [0..<length kps]) \<and>
     (max_features_per_target self < int (length kps) \<longrightarrow>
        select_indices self kps (h, w) = Inr sel)"
proof (cases "int (length kps) \<le> max_features_per_target self")
  case True
  let ?sel = "[0..<length kps]"
  have "select_best_features self keypoints descriptors kps (h, w) =
      Inr (keypoints, descriptors, kps)"
    using True lk by (simp add: select_best_features_def)
  moreover have "map (\<lambda>i. keypoints ! i) ?sel = keypoints"
    using map_nth[of keypoints] lk by simp
  moreover have "map (\<lambda>i. descriptors ! i) ?sel = descriptors"
    using map_nth[of descriptors] ld by simp
  moreover have "map (\<lambda>i. kps ! i) ?sel = kps" by (rule map_nth)
  ultimately have r: "select_best_features self keypoints descriptors kps (h, w) =
       Inr (map (\<lambda>i. keypoints ! i) ?sel, map (\<lambda>i. descriptors ! i) ?sel,
            map (\<lambda>i. kps ! i) ?sel)"
    by simp
  have d: "distinct ?sel" by simp
  have rng: "set ?sel \<subseteq> {..<length kps}" by auto
  have len: "int (length ?sel) = min (int (length kps)) (max_features_per_target self)"
    using True by simp
  have fast: "int (length kps) \<le> max_features_per_target self \<longrightarrow> ?sel = [0..<length kps]"
    by simp
  have slow: "max_features_per_target self < int (length kps) \<longrightarrow>
        select_indices self kps (h, w) = Inr ?sel"
    using True by simp
  show ?thesis
    by (rule exI[of _ ?sel], intro conjI) (fact d rng len r fast slow)+
next
  case False
  then have over: "max_features_per_target self < int (length kps)" by simp
  from select_indices_spec[OF budget over shape pos] obtain sel1 cc fill where s:
    "select_indices self kps (h, w) = Inr (sel1 @ fill)"
    "subseq sel1 (sorted_indices_of kps)" "subseq fill (sorted_indices_of kps)"
    "distinct (sel1 @ fill)" "int (length (sel1 @ fill)) = max_features_per_target self"
    by blast
  have rng: "set (sel1 @ fill) \<subseteq> {..<length kps}"
    using subseq_sorted_indices_range[OF s(2)] subseq_sorted_indices_range[OF s(3)] by simp
  have r: "select_best_features self keypoints descriptors kps (h, w) =
     Inr (map (\<lambda>i. keypoints ! i) (sel1 @ fill), map (\<lambda>i. descriptors ! i) (sel1 @ fill),
          map (\<lambda>i. kps ! i) (sel1 @ fill))"
    by (rule select_best_features_slow[OF budget lk ld over s(1) s(5) rng])
  have len: "int (length (sel1 @ fill)) = min (int (length kps)) (max_features_per_target self)"
    using s(5) over by simp
  have fast: "int (length kps) \<le> max_features_per_target self \<longrightarrow>
      sel1 @ fill = [0..<length kps]"
    using over by simp
  have slow: "max_features_per_target self < int (length kps) \<longrightarrow>
        select_indices self kps (h, w) = Inr (sel1 @ fill)"
    using s(1) by simp
  show ?thesis
    by (rule exI[of _ "sel1 @ fill"], intro conjI) (fact s(4) rng len r fast slow)+
qed

lemma ex3_sorted: "sorted_indices_of ex3_kps = [1, 2, 0]"
  by (simp add: sorted_indices_of_def np_argsort_def ex3_kps_def upt_rec)

lemma ex3_first_pass: "\<exists>cc. first_pass_result ex3_self ex3_kps (100, 100) = Inr ([], cc)"
  unfolding first_pass_result_def ex3_sorted
  by (simp add: ex3_self_def init_builder_def ex3_kps_def
      grid_cell_def py_int_def np_index_def)

lemma ex3_select_indices: "select_indices ex3_self ex3_kps (100, 100) = Inr [1, 2]"
  using ex3_first_pass unfolding select_indices_def ex3_sorted
  by (auto simp add: ex3_self_def init_builder_def)

lemma ex3_select_best_features:
  "select_best_features ex3_self (map pt ex3_kps) [[1], [2], [3]] ex3_kps (100, 100) =
   Inr ([(90, 90), (50, 50)], [[2], [3]],
        [\<lparr>pt = (90, 90), response = 9\<rparr>, \<lparr>pt = (50, 50), response = 7\<rparr>])"
  by (simp add: select_best_features_def ex3_select_indices np_take_def)
     (simp add: ex3_kps_def ex3_self_def init_builder_def)

lemma ex3_hyps:
  "1 \<le> max_features_per_target ex3_self"
  "length (map pt ex3_kps) = length ex3_kps"
  "length [[1], [2], [3 :: 8 word]] = length ex3_kps"
  "\<forall>kp\<in>set ex3_kps. 0 \<le> fst (pt kp) \<and> 0 \<le> snd (pt kp)"
  by (simp_all add: ex3_self_def ex3_kps_def)

lemma ex17_sorted:
  "sorted_indices_of ex17_kps = [0, 1, 2, 3, 4, 5, 6, 7, 8, 9, 10, 11, 12, 13, 14, 15, 16]"
  by (simp add: sorted_indices_of_def np_argsort_def ex17_kps_def upt_rec)

lemma ex17_first_pass:
  "\<exists>cc. first_pass_result ex16_self ex17_kps (100, 100) = Inr ([0, 16], cc)"
  unfolding first_pass_result_def ex17_sorted
  by (simp add: ex16_self_def init_builder_def ex17_kps_def grid_cell_def py_int_def
      np_index_def)

lemma ex17_select_indices:
  "select_indices ex16_self ex17_kps (100, 100) =
     Inr [0, 16, 1, 2, 3, 4, 5, 6, 7, 8, 9, 10, 11, 12, 13, 14]"
  using ex17_first_pass unfolding select_indices_def ex17_sorted
  by (auto simp add: ex16_self_def init_builder_def)

lemma ex17_hyps:
  "1 \<le> max_features_per_target ex16_self"
  "max_features_per_target ex16_self < int (length ex17_kps)"
  "\<forall>kp\<in>set ex17_kps. 0 \<le> fst (pt kp) \<and> 0 \<le> snd (pt kp)"
  by (simp_all add: ex16_self_def ex17_kps_def)

text \<open>
  Claim C2. For a budget of at least 1 (the builder sets 500) and parallel keypoint,
  descriptor and \<open>cv2\<close> keypoint sequences of an image of positive size whose keypoints
  have non-negative coordinates, \<open>_select_best_features\<close> returns three sequences of
  exactly \<open>min(input size, max_features_per_target)\<close> elements, all taken from the
  input; when the input size is at most the budget the output is the input itself; and
  applying the budgeter to its own output returns that output again.
\<close>

theorem select_best_features_size:
  assumes "1 \<le> max_features_per_target self"
    and "length keypoints = length kps" and "length descriptors = length kps"
    and "0 < h" and "0 < w"
    and "\<forall>kp\<in>set kps. 0 \<le> fst (pt kp) \<and> 0 \<le> snd (pt kp)"
  shows "\<exists>keypoints' descriptors' kps'.
     select_best_features self keypoints descriptors kps (h, w) =
       Inr (keypoints', descriptors', kps') \<and>
     int (length keypoints') = min (int (length keypoints)) (max_features_per_target self) \<and>
     length descriptors' = length keypoints' \<and> length kps' = length keypoints' \<and>
     set keypoints' \<subseteq> set keypoints \<and> set descriptors' \<subseteq> set descriptors \<and>
     set kps' \<subseteq> set kps \<and>
     (int (length keypoints) \<le> max_features_per_target self \<longrightarrow>
        keypoints' = keypoints \<and> descriptors' = descriptors \<and> kps' = kps) \<and>
     select_best_features self keypoints' descriptors' kps' (h, w) =
       Inr (keypoints', descriptors', kps')"
proof -
  from select_best_features_spec[OF assms] obtain sel where s:
    "set sel \<subseteq> {..<length kps}"
    "int (length sel) = min (int (length kps)) (max_features_per_target self)"
    "select_best_features self keypoints descriptors kps (h, w) =
       Inr (map (\<lambda>i. keypoints ! i) sel, map (\<lambda>i. descriptors ! i) sel,
            map (\<lambda>i. kps ! i) sel)"
    "int (length kps) \<le> max_features_per_target self \<longrightarrow> sel = [0..<length kps]"
    by blast
  let ?k = "map (\<lambda>i. keypoints ! i) sel"
  let ?d = "map (\<lambda>i. descriptors ! i) sel"
  let ?c = "map (\<lambda>i. kps ! i) sel"
  have len: "int (length ?k) = min (int (length keypoints)) (max_features_per_target self)"
    using s(2) assms(2) by simp
  have ld: "length ?d = length ?k" and lc: "length ?c = length ?k" by simp_all
  have sk: "set ?k \<subseteq> set keypoints" using s(1) assms(2) by auto
  have sd: "set ?d \<subseteq> set descriptors" using s(1) assms(3) by auto
  have sc: "set ?c \<subseteq> set kps" using s(1) by auto
  have fast: "int (length keypoints) \<le> max_features_per_target self \<longrightarrow>
      ?k = keypoints \<and> ?d = descriptors \<and> ?c = kps"
  proof
    assume "int (length keypoints) \<le> max_features_per_target self"
    with s(4) assms(2) have sel: "sel = [0..<length kps]" by simp
    have "map (\<lambda>i. keypoints ! i) [0..<length keypoints] = keypoints" by (rule map_nth)
    moreover have "map (\<lambda>i. descriptors ! i) [0..<length descriptors] = descriptors"
      by (rule map_nth)
    moreover have "map (\<lambda>i. kps ! i) [0..<length kps] = kps" by (rule map_nth)
    ultimately show "?k = keypoints \<and> ?d = descriptors \<and> ?c = kps"
      using sel assms(2,3) by simp
  qed
  have "int (length ?k) \<le> max_features_per_target self" using len by simp
  then have idem: "select_best_features self ?k ?d ?c (h, w) = Inr (?k, ?d, ?c)"
    by (simp add: select_best_features_def)
  show ?thesis
    by (rule exI[of _ ?k], rule exI[of _ ?d], rule exI[of _ ?c], intro conjI)
      (fact s(3) len ld lc sk sd sc fast idem)+
qed

theorem select_best_features_size_witness:
  "select_best_features ex3_self (map pt ex3_kps) [[1], [2], [3]] ex3_kps (100, 100) =
     Inr ([(90, 90), (50, 50)], [[2], [3]],
          [\<lparr>pt = (90, 90), response = 9\<rparr>, \<lparr>pt = (50, 50), response = 7\<rparr>]) \<and>
   select_best_features ex3_self [(90, 90), (50, 50)] [[2], [3]]
       [\<lparr>pt = (90, 90), response = 9\<rparr>, \<lparr>pt = (50, 50), response = 7\<rparr>] (100, 100) =
     Inr ([(90, 90), (50, 50)], [[2], [3]],
          [\<lparr>pt = (90, 90), response = 9\<rparr>, \<lparr>pt = (50, 50), response = 7\<rparr>])"
proof -
  have h: "(0::nat) < 100" by simp
  from select_best_features_size[OF ex3_hyps(1,2,3) h h ex3_hyps(4)]
  obtain k d c where
    "select_best_features ex3_self (map pt ex3_kps) [[1], [2], [3]] ex3_kps (100, 100) =
       Inr (k, d, c)"
    "select_best_features ex3_self k d c (100, 100) = Inr (k, d, c)"
    by blast
  with ex3_select_best_features show ?thesis by simp
qed

text \<open>
  Claim C10. Under the same conditions there is a list \<open>sel\<close> of input positions,
  without repetition, such that the \<open>i\<close>-th returned keypoint position, descriptor and
  \<open>cv2\<close> keypoint are those at input position \<open>sel ! i\<close>. When the input exceeds the
  budget, \<open>sel\<close> is the list \<open>selected_indices\<close>: the selection of the first pass,
  itself without repetition, followed by what the second pass appends.
\<close>

theorem select_best_features_aligned:
  assumes "1 \<le> max_features_per_target self"
    and "length keypoints = length kps" and "length descriptors = length kps"
    and "0 < h" and "0 < w"
    and "\<forall>kp\<in>set kps. 0 \<le> fst (pt kp) \<and> 0 \<le> snd (pt kp)"
  shows "\<exists>sel keypoints' descriptors' kps'.
     select_best_features self keypoints descriptors kps (h, w) =
       Inr (keypoints', descriptors', kps') \<and>
     distinct sel \<and> set sel \<subseteq> {..<length kps} \<and>
     length keypoints' = length sel \<and> length descriptors' = length sel \<and>
     length kps' = length sel \<and>
     (\<forall>i<length sel. keypoints' ! i = keypoints ! (sel ! i) \<and>
        descriptors' ! i = descriptors ! (sel ! i) \<and> kps' ! i = kps ! (sel ! i)) \<and>
     (max_features_per_target self < int (length kps) \<longrightarrow>
        select_indices self kps (h, w) = Inr sel \<and>
        (\<exists>sel1 cc fill. first_pass_result self kps (h, w) = Inr (sel1, cc) \<and>
           sel = sel1 @ fill \<and> distinct sel1))"
proof -
  from select_best_features_spec[OF assms] obtain sel where s:
    "distinct sel" "set sel \<subseteq> {..<length kps}"
    "select_best_features self keypoints descriptors kps (h, w) =
       Inr (map (\<lambda>i. keypoints ! i) sel, map (\<lambda>i. descriptors ! i) sel,
            map (\<lambda>i. kps ! i) sel)"
    "max_features_per_target self < int (length kps) \<longrightarrow>
        select_indices self kps (h, w) = Inr sel"
    by blast
  let ?k = "map (\<lambda>i. keypoints ! i) sel"
  let ?d = "map (\<lambda>i. descriptors ! i) sel"
  let ?c = "map (\<lambda>i. kps ! i) sel"
  have lk: "length ?k = length sel" and ld: "length ?d = length sel"
    and lc: "length ?c = length sel" by simp_all
  have nth: "\<forall>i<length sel. ?k ! i = keypoints ! (sel ! i) \<and>
        ?d ! i = descriptors ! (sel ! i) \<and> ?c ! i = kps ! (sel ! i)"
    by simp
  have slow: "max_features_per_target self < int (length kps) \<longrightarrow>
        select_indices self kps (h, w) = Inr sel \<and>
        (\<exists>sel1 cc fill. first_pass_result self kps (h, w) = Inr (sel1, cc) \<and>
           sel = sel1 @ fill \<and> distinct sel1)"
  proof
    assume over: "max_features_per_target self < int (length kps)"
    with s(4) have si: "select_indices self kps (h, w) = Inr sel" by simp
    from select_indices_spec[OF assms(1) over assms(4,5,6)] obtain sel1 cc fill where f:
      "first_pass_result self kps (h, w) = Inr (sel1, cc)"
      "select_indices self kps (h, w) = Inr (sel1 @ fill)"
      "distinct (sel1 @ fill)"
      by blast
    from si f(2) have "sel = sel1 @ fill" by simp
    moreover have "distinct sel1" using f(3) by simp
    ultimately show "select_indices self kps (h, w) = Inr sel \<and>
        (\<exists>sel1 cc fill. first_pass_result self kps (h, w) = Inr (sel1, cc) \<and>
           sel = sel1 @ fill \<and> distinct sel1)"
      using si f(1) by blast
  qed
  show ?thesis
    by (rule exI[of _ sel], rule exI[of _ ?k], rule exI[of _ ?d], rule exI[of _ ?c],
        intro conjI) (fact s(3) s(1) s(2) lk ld lc nth slow)+
qed

theorem select_best_features_aligned_witness:
  "select_best_features ex3_self (map pt ex3_kps) [[1], [2], [3]] ex3_kps (100, 100) =
     Inr ([map pt ex3_kps ! 1, map pt ex3_kps ! 2], [[[1], [2], [3]] ! 1, [[1], [2], [3]] ! 2],
          [ex3_kps ! 1, ex3_kps ! 2]) \<and>
   select_indices ex3_self ex3_kps (100, 100) = Inr [1, 2] \<and> distinct [1, 2 :: nat]"
proof -
  have h: "(0::nat) < 100" by simp
  from select_best_features_aligned[OF ex3_hyps(1,2,3) h h ex3_hyps(4)]
  obtain sel where d: "distinct sel"
    by blast
  have "[map pt ex3_kps ! 1, map pt ex3_kps ! 2] = [(90, 90), (50, 50)]"
    "[ex3_kps ! 1, ex3_kps ! 2] =
       [\<lparr>pt = (90, 90), response = 9\<rparr>, \<lparr>pt = (50, 50), response = 7\<rparr>]"
    by (simp_all add: ex3_kps_def)
  with d show ?thesis
    using ex3_select_best_features ex3_select_indices by simp
qed

text \<open>
  Claim C8. When the input has more features than the budget, the first pass walks the
  features in descending response order (its selection is a subsequence of the sorted
  positions), admits at most \<open>max_features_per_target div 16\<close> features of any grid cell
  and at most the budget overall. The final selection holds more than that quota from
  some cell only if the second pass ran and appended something, and then every candidate
  of every cell the first pass left under its quota had already been admitted by the first
  pass.
\<close>

theorem first_pass_cell_quota:
  assumes "1 \<le> max_features_per_target self"
    and "max_features_per_target self < int (length kps)"
    and "0 < h" and "0 < w"
    and "\<forall>kp\<in>set kps. 0 \<le> fst (pt kp) \<and> 0 \<le> snd (pt kp)"
  shows "\<exists>sel1 cc fill.
     first_pass_result self kps (h, w) = Inr (sel1, cc) \<and>
     select_indices self kps (h, w) = Inr (sel1 @ fill) \<and>
     sorted (map (\<lambda>i. - response (kps ! i)) (sorted_indices_of kps)) \<and>
     subseq sel1 (sorted_indices_of kps) \<and>
     int (length sel1) \<le> max_features_per_target self \<and>
     (\<forall>c. int (length (cell_members (real h / 4) (real w / 4) kps c sel1))
          \<le> max_features_per_target self div 16) \<and>
     (fill \<noteq> [] \<longrightarrow> int (length sel1) < max_features_per_target self) \<and>
     (\<forall>c. max_features_per_target self div 16
            < int (length (cell_members (real h / 4) (real w / 4) kps c (sel1 @ fill))) \<longrightarrow>
          fill \<noteq> [] \<and>
          (\<forall>c'. int (length (cell_members (real h / 4) (real w / 4) kps c' sel1))
                  < max_features_per_target self div 16 \<longrightarrow>
               (\<forall>i<length kps. grid_cell (real h / 4) (real w / 4) (kps ! i) = Inr c' \<longrightarrow>
                  i \<in> set sel1)))"
proof -
  let ?B = "max_features_per_target self"
  let ?ch = "real h / 4" and ?cw = "real w / 4"
  from select_indices_spec[OF assms] obtain sel1 cc fill where s:
    "first_pass_result self kps (h, w) = Inr (sel1, cc)"
    "select_indices self kps (h, w) = Inr (sel1 @ fill)"
    "subseq sel1 (sorted_indices_of kps)"
    "int (length (sel1 @ fill)) = ?B"
    "\<forall>c. cc c = int (length (cell_members ?ch ?cw kps c sel1))"
    "\<forall>c. cc c \<le> ?B div 16"
    "fill \<noteq> [] \<longrightarrow> int (length sel1) < ?B"
    "int (length sel1) < ?B \<longrightarrow>
       (\<forall>i<length kps. \<forall>c. grid_cell ?ch ?cw (kps ! i) = Inr c \<and> cc c < ?B div 16
          \<longrightarrow> i \<in> set sel1)"
    by blast
  have len1: "int (length sel1) \<le> ?B" using s(4) by simp
  have quota: "\<forall>c. int (length (cell_members ?ch ?cw kps c sel1)) \<le> ?B div 16"
  proof
    fix c show "int (length (cell_members ?ch ?cw kps c sel1)) \<le> ?B div 16"
      using s(5)[rule_format, of c] s(6)[rule_format, of c] by simp
  qed
  have exceed: "\<forall>c. ?B div 16 < int (length (cell_members ?ch ?cw kps c (sel1 @ fill))) \<longrightarrow>
          fill \<noteq> [] \<and>
          (\<forall>c'. int (length (cell_members ?ch ?cw kps c' sel1)) < ?B div 16 \<longrightarrow>
               (\<forall>i<length kps. grid_cell ?ch ?cw (kps ! i) = Inr c' \<longrightarrow> i \<in> set sel1))"
  proof (intro allI impI)
    fix c
    assume ex: "?B div 16 < int (length (cell_members ?ch ?cw kps c (sel1 @ fill)))"
    have ne: "fill \<noteq> []"
    proof
      assume "fill = []"
      with ex have "?B div 16 < int (length (cell_members ?ch ?cw kps c sel1))" by simp
      with quota[rule_format, of c] show False by simp
    qed
    with s(7) have lt: "int (length sel1) < ?B" by simp
    have "\<forall>c'. int (length (cell_members ?ch ?cw kps c' sel1)) < ?B div 16 \<longrightarrow>
               (\<forall>i<length kps. grid_cell ?ch ?cw (kps ! i) = Inr c' \<longrightarrow> i \<in> set sel1)"
    proof (intro allI impI)
      fix c' i
      assume u: "int (length (cell_members ?ch ?cw kps c' sel1)) < ?B div 16"
        and i: "i < length kps" and g: "grid_cell ?ch ?cw (kps ! i) = Inr c'"
      have "cc c' < ?B div 16" using u s(5)[rule_format, of c'] by simp
      with s(8) lt i g show "i \<in> set sel1" by blast
    qed
    with ne show "fill \<noteq> [] \<and>
          (\<forall>c'. int (length (cell_members ?ch ?cw kps c' sel1)) < ?B div 16 \<longrightarrow>
               (\<forall>i<length kps. grid_cell ?ch ?cw (kps ! i) = Inr c' \<longrightarrow> i \<in> set sel1))"
      by blast
  qed
  show ?thesis
    by (rule exI[of _ sel1], rule exI[of _ cc], rule exI[of _ fill], intro conjI)
      (fact s(1) s(2) sorted_indices_of_descending s(3) len1 quota s(7) exceed)+
qed

theorem first_pass_cell_quota_witness:
  "(\<exists>cc. first_pass_result ex16_self ex17_kps (100, 100) = Inr ([0, 16], cc)) \<and>
   select_indices ex16_self ex17_kps (100, 100) =
     Inr ([0, 16] @ [1, 2, 3, 4, 5, 6, 7, 8, 9, 10, 11, 12, 13, 14]) \<and>
   max_features_per_target ex16_self div 16 = 1 \<and>
   cell_members (real 100 / 4) (real 100 / 4) ex17_kps (0, 0) [0, 16] = [0] \<and>
   cell_members (real 100 / 4) (real 100 / 4) ex17_kps (3, 3) [0, 16] = [16] \<and>
   length (cell_members (real 100 / 4) (real 100 / 4) ex17_kps (0, 0)
     ([0, 16] @ [1, 2, 3, 4, 5, 6, 7, 8, 9, 10, 11, 12, 13, 14])) = 15"
proof -
  have h: "(0::nat) < 100" by simp
  from first_pass_cell_quota[OF ex17_hyps(1,2) h h ex17_hyps(3)]
  obtain sel1 cc fill where
    "first_pass_result ex16_self ex17_kps (100, 100) = Inr (sel1, cc)"
    "select_indices ex16_self ex17_kps (100, 100) = Inr (sel1 @ fill)"
    by blast
  moreover have "max_features_per_target ex16_self div 16 = 1"
    by (simp add: ex16_self_def)
  moreover have "cell_members (real 100 / 4) (real 100 / 4) ex17_kps (0, 0) [0, 16] = [0]"
    "cell_members (real 100 / 4) (real 100 / 4) ex17_kps (3, 3) [0, 16] = [16]"
    "length (cell_members (real 100 / 4) (real 100 / 4) ex17_kps (0, 0)
     ([0, 16] @ [1, 2, 3, 4, 5, 6, 7, 8, 9, 10, 11, 12, 13, 14])) = 15"
    by (simp_all add: cell_members_def ex17_kps_def grid_cell_def py_int_def np_index_def)
  ultimately show ?thesis using ex17_first_pass ex17_select_indices by simp
qed

section \<open>Properties of the vocabulary builder\<close>

lemma length_unpackbits_row: "length (unpackbits_row d) = 8 * length d"
  by (induction d) (simp_all add: unpackbits_row_def)

lemma length_packbits_row: "length (packbits_row bs) = (length bs + 7) div 8"
proof (induction bs rule: packbits_row.induct)
  case 1
  then show ?case by simp
next
  case (2 b bs)
  have "1 + ((length bs - 7) + 7) div 8 = (length bs + 1 + 7) div 8" by arith
  with 2 show ?case by simp
qed

lemma build_vocabulary_result:
  assumes "kmeans_fit environ (min (vocabulary_size self) (int (length all_descriptors)))
             (map unpackbits_row all_descriptors) = Inr centers"
  shows "build_vocabulary environ self all_descriptors =
     ((if int (length all_descriptors) < vocabulary_size self
       then [FewerDescriptorsThanVocabulary (int (length all_descriptors)) (vocabulary_size self),
             ReducingVocabularySize (int (length all_descriptors))]
       else []),
      Inr (self\<lparr>vocabulary_size := min (vocabulary_size self) (int (length all_descriptors)),
                vocabulary := Some (centers_binary centers)\<rparr>))"
proof (cases "int (length all_descriptors) < vocabulary_size self")
  case True
  then have m: "min (vocabulary_size self) (int (length all_descriptors)) =
      int (length all_descriptors)" by simp
  show ?thesis using True assms unfolding m
    by (simp add: build_vocabulary_def Let_def)
next
  case False
  then have m: "min (vocabulary_size self) (int (length all_descriptors)) =
      vocabulary_size self" by simp
  show ?thesis using False assms unfolding m
    by (simp add: build_vocabulary_def Let_def)
qed

lemma ex_build3: "build_vocabulary ex_env (init_builder 10 3) [[255], [0], [255]] =
   ([FewerDescriptorsThanVocabulary 3 1000, ReducingVocabularySize 3],
    Inr ((init_builder 10 3)\<lparr>vocabulary_size := 3, vocabulary := Some [[255], [0], [255]]\<rparr>))"
  by (simp add: build_vocabulary_def Let_def init_builder_def ex_env_def unpackbits_row_def
      centers_binary_def byte_of_bits_def upt_rec bit_numeral_rec)

lemma ex_builder: "1 \<le> max_features_per_target (init_builder 10 3)"
  "1 \<le> vocabulary_size (init_builder 10 3)"
  by (simp_all add: init_builder_def)

text \<open>
  Claim C3. For a requested vocabulary size of at least 1 and at least one pooled
  descriptor, when the clustering returns as many centres as it is asked for,
  \<open>build_vocabulary\<close> returns normally with a vocabulary whose length is
  \<open>min(requested vocabulary_size, pooled descriptor count)\<close>, which is positive, and
  \<open>vocabulary_size\<close> is set to that length; when the pooled count is below the requested
  size the two warning lines are printed and nothing is raised.
\<close>

theorem build_vocabulary_size:
  assumes "1 \<le> vocabulary_size self" and "all_descriptors \<noteq> []"
    and "kmeans_fit environ (min (vocabulary_size self) (int (length all_descriptors)))
           (map unpackbits_row all_descriptors) = Inr centers"
    and "int (length centers) = min (vocabulary_size self) (int (length all_descriptors))"
  shows "\<exists>out self' voc.
     build_vocabulary environ self all_descriptors = (out, Inr self') \<and>
     vocabulary self' = Some voc \<and>
     int (length voc) = min (vocabulary_size self) (int (length all_descriptors)) \<and>
     0 < length voc \<and>
     vocabulary_size self' = int (length voc) \<and>
     (int (length all_descriptors) < vocabulary_size self \<longrightarrow>
        out = [FewerDescriptorsThanVocabulary (int (length all_descriptors)) (vocabulary_size self),
               ReducingVocabularySize (int (length all_descriptors))]) \<and>
     (vocabulary_size self \<le> int (length all_descriptors) \<longrightarrow> out = [])"
proof -
  let ?n = "int (length all_descriptors)"
  let ?voc = "centers_binary centers"
  let ?self' = "self\<lparr>vocabulary_size := min (vocabulary_size self) ?n, vocabulary := Some ?voc\<rparr>"
  let ?out = "if ?n < vocabulary_size self
       then [FewerDescriptorsThanVocabulary ?n (vocabulary_size self), ReducingVocabularySize ?n]
       else []"
  have r: "build_vocabulary environ self all_descriptors = (?out, Inr ?self')"
    by (rule build_vocabulary_result[OF assms(3)])
  have v: "vocabulary ?self' = Some ?voc" by simp
  have len: "int (length ?voc) = min (vocabulary_size self) ?n"
    using assms(4) by (simp add: centers_binary_def)
  have "1 \<le> ?n" using assms(2) by (cases all_descriptors) simp_all
  with assms(1) len have pos: "0 < length ?voc" by linarith
  have vs: "vocabulary_size ?self' = int (length ?voc)" using len by simp
  have w1: "?n < vocabulary_size self \<longrightarrow>
        ?out = [FewerDescriptorsThanVocabulary ?n (vocabulary_size self),
               ReducingVocabularySize ?n]" by simp
  have w2: "vocabulary_size self \<le> ?n \<longrightarrow> ?out = []" by simp
  show ?thesis
    by (rule exI[of _ ?out], rule exI[of _ ?self'], rule exI[of _ ?voc], intro conjI)
      (fact r v len pos vs w1 w2)+
qed

theorem build_vocabulary_size_witness:
  "build_vocabulary ex_env (init_builder 10 3) [[255], [0], [255]] =
     ([FewerDescriptorsThanVocabulary 3 1000, ReducingVocabularySize 3],
      Inr ((init_builder 10 3)\<lparr>vocabulary_size := 3,
             vocabulary := Some [[255], [0], [255]]\<rparr>)) \<and>
   int (length [[255], [0], [255 :: 8 word]]) =
     min (vocabulary_size (init_builder 10 3)) (int (length [[255], [0], [255 :: 8 word]]))"
proof -
  let ?descs = "[[255], [0], [255]] :: descriptor list"
  have ne: "?descs \<noteq> []" by simp
  have km: "kmeans_fit ex_env (min (vocabulary_size (init_builder 10 3)) (int (length ?descs)))
       (map unpackbits_row ?descs) = Inr (map unpackbits_row ?descs)"
    by (simp add: ex_env_def init_builder_def)
  have len: "int (length (map unpackbits_row ?descs)) =
      min (vocabulary_size (init_builder 10 3)) (int (length ?descs))"
    by (simp add: init_builder_def)
  from build_vocabulary_size[OF ex_builder(2) ne km len]
  obtain out self' where "build_vocabulary ex_env (init_builder 10 3) ?descs = (out, Inr self')"
    by blast
  with ex_build3 len show ?thesis by simp
qed

section \<open>Properties of the pipeline\<close>

lemma extract_features_load_failure:
  "imread environ p = None \<Longrightarrow>
   extract_features environ self p = ([], Inl (ValueError (''Failed to load image: '' @ p)))"
  by (simp add: extract_features_def)

lemma extract_features_no_features:
  assumes "imread environ p = Some img" and "\<not> has_features environ p"
  shows "extract_features environ self p = ([NoFeaturesFound p], Inr ([], [], img, None))"
proof -
  obtain kps dopt where d: "detectAndCompute environ img = (kps, dopt)"
    by (cases "detectAndCompute environ img")
  show ?thesis
  proof (cases dopt)
    case None
    then show ?thesis using assms(1) d by (simp add: extract_features_def)
  next
    case (Some descs)
    with assms d have "descs = []" by (simp add: has_features_def)
    with Some show ?thesis using assms(1) d by (simp add: extract_features_def)
  qed
qed

lemma extract_features_with_features:
  assumes budget: "1 \<le> max_features_per_target self"
    and img: "imread environ p = Some img"
    and hf: "has_features environ p" and ok: "image_ok environ L p"
  shows "\<exists>keypoints' descs' metadata.
     extract_features environ self p = ([], Inr (keypoints', descs', img, metadata)) \<and>
     descs' \<noteq> [] \<and> list_all (\<lambda>d. length d = L) descs' \<and>
     length keypoints' = length descs'"
proof -
  obtain kps dopt where d0: "detectAndCompute environ img = (kps, dopt)"
    by (cases "detectAndCompute environ img")
  from hf img d0 obtain descs where ds: "dopt = Some descs" "descs \<noteq> []"
    by (cases dopt) (simp_all add: has_features_def)
  obtain h w where sh: "gray_shape environ img = (h, w)"
    by (cases "gray_shape environ img")
  from ok img d0 ds sh have c:
    "length kps = length descs" "list_all (\<lambda>d. length d = L) descs"
    "list_all (\<lambda>kp. 0 \<le> fst (pt kp) \<and> 0 \<le> snd (pt kp)) kps" "0 < h" "0 < w"
    by (simp_all add: image_ok_def)
  have lk: "length (map pt kps) = length kps" by simp
  have ld: "length descs = length kps" using c(1) by simp
  have pos: "\<forall>kp\<in>set kps. 0 \<le> fst (pt kp) \<and> 0 \<le> snd (pt kp)"
    using c(3) by (simp add: list_all_iff)
  from select_best_features_spec[OF budget lk ld c(4,5) pos] obtain sel where s:
    "set sel \<subseteq> {..<length kps}"
    "int (length sel) = min (int (length kps)) (max_features_per_target self)"
    "select_best_features self (map pt kps) descs kps (h, w) =
       Inr (map (\<lambda>i. map pt kps ! i) sel, map (\<lambda>i. descs ! i) sel, map (\<lambda>i. kps ! i) sel)"
    by blast
  let ?k = "map (\<lambda>i. map pt kps ! i) sel" and ?d = "map (\<lambda>i. descs ! i) sel"
  let ?m = "Some (compute_image_metadata environ img (map pt kps) kps)"
  have r: "extract_features environ self p = ([], Inr (?k, ?d, img, ?m))"
    using img d0 ds sh s(3) by (simp add: extract_features_def Let_def)
  have "1 \<le> int (length kps)" using ds(2) c(1) by (cases descs) simp_all
  with s(2) budget have "1 \<le> int (length sel)" by simp
  then have ne: "?d \<noteq> []" by auto
  have "set ?d \<subseteq> set descs" using s(1) ld by auto
  with c(2) have w: "list_all (\<lambda>d. length d = L) ?d" by (auto simp: list_all_iff)
  have l: "length ?k = length ?d" by simp
  show ?thesis
    by (rule exI[of _ ?k], rule exI[of _ ?d], rule exI[of _ ?m], intro conjI) (fact r ne w l)+
qed

lemma skip_log_Cons:
  "skip_log environ (p # files) =
     (if has_features environ p then [] else [NoFeaturesFound p, SkippingNoFeatures p]) @
     skip_log environ files"
  by (simp add: skip_log_def)

lemma extract_loop_ok:
  assumes budget: "1 \<le> max_features_per_target self"
    and load: "\<forall>p\<in>set files. imread environ p \<noteq> None"
    and ok: "\<forall>p\<in>set files. image_ok environ L p"
  shows "\<exists>ts. extract_loop environ self files all_descriptors target_features out =
           (out @ skip_log environ files,
            Inr (all_descriptors @ map t_descriptors ts, target_features @ ts)) \<and>
         map source ts = filter (has_features environ) files \<and>
         list_all (target_ok L) ts \<and>
         list_all (\<lambda>t. t_bow t = [] \<and> bow_tfidf t = []) ts"
  using load ok
proof (induction files arbitrary: all_descriptors target_features out)
  case Nil
  show ?case by (rule exI[of _ "[]"]) (simp add: skip_log_def)
next
  case (Cons p files)
  from Cons.prems(1) obtain img where img: "imread environ p = Some img" by auto
  have okp: "image_ok environ L p" using Cons.prems(2) by simp
  have load': "\<forall>q\<in>set files. imread environ q \<noteq> None" using Cons.prems(1) by simp
  have ok': "\<forall>q\<in>set files. image_ok environ L q" using Cons.prems(2) by simp
  show ?case
  proof (cases "has_features environ p")
    case False
    have e: "extract_features environ self p = ([NoFeaturesFound p], Inr ([], [], img, None))"
      by (rule extract_features_no_features[OF img False])
    from Cons.IH[OF load' ok', of all_descriptors target_features
        "out @ [NoFeaturesFound p] @ [SkippingNoFeatures p]"]
    obtain ts where ts:
      "extract_loop environ self files all_descriptors target_features
         (out @ [NoFeaturesFound p] @ [SkippingNoFeatures p]) =
       ((out @ [NoFeaturesFound p] @ [SkippingNoFeatures p]) @ skip_log environ files,
        Inr (all_descriptors @ map t_descriptors ts, target_features @ ts))"
      "map source ts = filter (has_features environ) files"
      "list_all (target_ok L) ts"
      "list_all (\<lambda>t. t_bow t = [] \<and> bow_tfidf t = []) ts"
      by blast
    have r: "extract_loop environ self (p # files) all_descriptors target_features out =
           (out @ skip_log environ (p # files),
            Inr (all_descriptors @ map t_descriptors ts, target_features @ ts))"
      using e ts(1) False by (simp add: skip_log_Cons)
    have m: "map source ts = filter (has_features environ) (p # files)"
      using ts(2) False by simp
    show ?thesis by (rule exI[of _ ts], intro conjI) (fact r m ts(3) ts(4))+
  next
    case True
    from extract_features_with_features[OF budget img True okp]
    obtain keypoints' descs' metadata where e:
      "extract_features environ self p = ([], Inr (keypoints', descs', img, metadata))"
      "descs' \<noteq> []" "list_all (\<lambda>d. length d = L) descs'"
      "length keypoints' = length descs'"
      by blast
    let ?t = "\<lparr>source = p, t_keypoints = keypoints', t_descriptors = descs',
               num_features = int (length keypoints'), t_metadata = metadata,
               t_bow = [], bow_tfidf = []\<rparr>"
    from Cons.IH[OF load' ok', of "all_descriptors @ [descs']" "target_features @ [?t]" "out @ []"]
    obtain ts where ts:
      "extract_loop environ self files (all_descriptors @ [descs']) (target_features @ [?t])
         (out @ []) =
       ((out @ []) @ skip_log environ files,
        Inr ((all_descriptors @ [descs']) @ map t_descriptors ts, (target_features @ [?t]) @ ts))"
      "map source ts = filter (has_features environ) files"
      "list_all (target_ok L) ts"
      "list_all (\<lambda>t. t_bow t = [] \<and> bow_tfidf t = []) ts"
      by blast
    have r: "extract_loop environ self (p # files) all_descriptors target_features out =
           (out @ skip_log environ (p # files),
            Inr (all_descriptors @ map t_descriptors (?t # ts), target_features @ (?t # ts)))"
      using e(1,2) ts(1) True by (simp add: skip_log_Cons)
    have m: "map source (?t # ts) = filter (has_features environ) (p # files)"
      using ts(2) True by simp
    have tk: "target_ok L ?t" using e(2,3,4) by (simp add: target_ok_def)
    have a: "list_all (target_ok L) (?t # ts)" using tk ts(3) by simp
    have b: "list_all (\<lambda>t. t_bow t = [] \<and> bow_tfidf t = []) (?t # ts)" using ts(4) by simp
    show ?thesis by (rule exI[of _ "?t # ts"], intro conjI) (fact r m a b)+
  qed
qed

lemma extract_loop_load_failure:
  assumes budget: "1 \<le> max_features_per_target self"
    and pre: "\<forall>q\<in>set pre. imread environ q \<noteq> None" "\<forall>q\<in>set pre. image_ok environ L q"
    and p: "imread environ p = None"
  shows "extract_loop environ self (pre @ p # post) all_descriptors target_features out =
           (out @ skip_log environ pre, Inl (ValueError (''Failed to load image: '' @ p)))"
  using pre
proof (induction pre arbitrary: all_descriptors target_features out)
  case Nil
  show ?case using extract_features_load_failure[OF p, of self]
    by (simp add: skip_log_def)
next
  case (Cons q pre)
  from Cons.prems(1) obtain img where img: "imread environ q = Some img" by auto
  have okq: "image_ok environ L q" using Cons.prems(2) by simp
  have load': "\<forall>q\<in>set pre. imread environ q \<noteq> None" using Cons.prems(1) by simp
  have ok': "\<forall>q\<in>set pre. image_ok environ L q" using Cons.prems(2) by simp
  show ?case
  proof (cases "has_features environ q")
    case False
    have e: "extract_features environ self q = ([NoFeaturesFound q], Inr ([], [], img, None))"
      by (rule extract_features_no_features[OF img False])
    show ?thesis
      using e False Cons.IH[OF load' ok', of all_descriptors target_features
          "out @ [NoFeaturesFound q] @ [SkippingNoFeatures q]"]
      by (simp add: skip_log_Cons)
  next
    case True
    from extract_features_with_features[OF budget img True okq]
    obtain keypoints' descs' metadata where e:
      "extract_features environ self q = ([], Inr (keypoints', descs', img, metadata))"
      "descs' \<noteq> []"
      by blast
    let ?t = "\<lparr>source = q, t_keypoints = keypoints', t_descriptors = descs',
               num_features = int (length keypoints'), t_metadata = metadata,
               t_bow = [], bow_tfidf = []\<rparr>"
    show ?thesis
      using e True Cons.IH[OF load' ok', of "all_descriptors @ [descs']"
          "target_features @ [?t]" "out @ []"]
      by (simp add: skip_log_Cons)
  qed
qed

lemma np_vstack_ok:
  assumes "ts \<noteq> []" and "list_all (target_ok L) ts"
  shows "np_vstack (map t_descriptors ts) = Inr (concat (map t_descriptors ts)) \<and>
         concat (map t_descriptors ts) \<noteq> [] \<and>
         (\<forall>d\<in>set (concat (map t_descriptors ts)). length d = L)"
proof -
  let ?P = "concat (map t_descriptors ts)"
  have w: "\<forall>d\<in>set ?P. length d = L"
    using assms(2) by (auto simp: list_all_iff target_ok_def)
  obtain t rest where ts: "ts = t # rest" using assms(1) by (cases ts) auto
  have "t_descriptors t \<noteq> []" using assms(2) ts by (simp add: target_ok_def)
  then have ne: "?P \<noteq> []" using ts by simp
  then have "hd ?P \<in> set ?P" by (rule hd_in_set)
  with w have "length (hd ?P) = L" by blast
  with w have "list_all (\<lambda>d. length d = length (hd ?P)) ?P" by (simp add: list_all_iff)
  then have "np_vstack (map t_descriptors ts) = Inr ?P"
    using assms(1) by (simp add: np_vstack_def)
  with ne w show ?thesis by blast
qed

lemma build_vocabulary_ok:
  assumes km: "kmeans_ok environ" and V: "1 \<le> vocabulary_size self"
    and ne: "pooled \<noteq> []" and w: "\<forall>d\<in>set pooled. length d = L"
  shows "\<exists>voc. build_vocabulary environ self pooled =
       ((if int (length pooled) < vocabulary_size self
         then [FewerDescriptorsThanVocabulary (int (length pooled)) (vocabulary_size self),
               ReducingVocabularySize (int (length pooled))]
         else []),
        Inr (self\<lparr>vocabulary_size := min (vocabulary_size self) (int (length pooled)),
                  vocabulary := Some voc\<rparr>)) \<and>
     int (length voc) = min (vocabulary_size self) (int (length pooled)) \<and>
     voc \<noteq> [] \<and> (\<forall>word\<in>set voc. length word = L)"
proof -
  let ?k = "min (vocabulary_size self) (int (length pooled))"
  let ?X = "map unpackbits_row pooled"
  have n1: "1 \<le> int (length pooled)" using ne by (cases pooled) simp_all
  have k1: "1 \<le> ?k" using V n1 by simp
  have k2: "?k \<le> int (length ?X)" by simp
  have rows: "\<forall>row\<in>set ?X. length row = 8 * L"
    using w by (auto simp: length_unpackbits_row)
  from km k1 k2 rows obtain centers where c:
    "kmeans_fit environ ?k ?X = Inr centers" "int (length centers) = ?k"
    "\<forall>c\<in>set centers. length c = 8 * L"
    unfolding kmeans_ok_def by blast
  let ?voc = "centers_binary centers"
  have r: "build_vocabulary environ self pooled =
       ((if int (length pooled) < vocabulary_size self
         then [FewerDescriptorsThanVocabulary (int (length pooled)) (vocabulary_size self),
               ReducingVocabularySize (int (length pooled))]
         else []),
        Inr (self\<lparr>vocabulary_size := ?k, vocabulary := Some ?voc\<rparr>))"
    by (rule build_vocabulary_result[OF c(1)])
  have len: "int (length ?voc) = ?k" using c(2) by (simp add: centers_binary_def)
  have vne: "?voc \<noteq> []" using len k1 by auto
  have wl: "\<forall>word\<in>set ?voc. length word = L"
    using c(3) by (auto simp: centers_binary_def length_packbits_row)
  show ?thesis by (rule exI[of _ ?voc], intro conjI) (fact r len vne wl)+
qed

lemma bow_targets_ok:
  assumes voc: "vocabulary self = Some voc" "voc \<noteq> []" "\<forall>word\<in>set voc. length word = L"
    and vs: "vocabulary_size self = int (length voc)"
    and ok: "list_all (target_ok L) ts"
  shows "\<exists>ts2. bow_targets self ts = Inr ts2 \<and> map source ts2 = map source ts \<and>
           list_all (target_ok L) ts2 \<and> list_all (histogram_ok self) ts2"
  using ok
proof (induction ts)
  case Nil
  show ?case by (rule exI[of _ "[]"]) simp
next
  case (Cons t ts)
  have tk: "target_ok L t" and ok': "list_all (target_ok L) ts" using Cons.prems by simp_all
  have dl: "\<forall>desc\<in>set (t_descriptors t). length desc = L"
    using tk by (simp add: target_ok_def list_all_iff)
  from descriptors_to_bow_spec[OF voc dl] obtain bow where b:
    "descriptors_to_bow self (t_descriptors t) = Inr bow" "distinct (dict_keys bow)"
    "\<forall>k\<in>set (dict_keys bow). 0 \<le> k \<and> k < int (length voc)"
    "sum_list (map snd bow) = int (length (t_descriptors t))"
    by blast
  from Cons.IH[OF ok'] obtain ts2 where r:
    "bow_targets self ts = Inr ts2" "map source ts2 = map source ts"
    "list_all (target_ok L) ts2" "list_all (histogram_ok self) ts2"
    by blast
  let ?t2 = "t\<lparr>t_bow := bow\<rparr>"
  have r1: "bow_targets self (t # ts) = Inr (?t2 # ts2)" using b(1) r(1) by simp
  have r2: "map source (?t2 # ts2) = map source (t # ts)" using r(2) by simp
  have tk2: "target_ok L ?t2" using tk by (simp add: target_ok_def)
  have hk: "histogram_ok self ?t2"
    using b tk vs by (simp add: histogram_ok_def target_ok_def list_all_iff)
  have r3: "list_all (target_ok L) (?t2 # ts2)" using tk2 r(3) by simp
  have r4: "list_all (histogram_ok self) (?t2 # ts2)" using hk r(4) by simp
  show ?case by (rule exI[of _ "?t2 # ts2"], intro conjI) (fact r1 r2 r3 r4)+
qed

lemma compute_idf_ok:
  assumes V: "0 \<le> vocabulary_size self" and h: "list_all (histogram_ok self) ts"
  shows "\<exists>idf. compute_idf self (map t_bow ts) = Inr (self\<lparr>idf_weights := Some idf\<rparr>) \<and>
           int (length idf) = vocabulary_size self"
proof -
  have "\<forall>bow\<in>set (map t_bow ts). distinct (dict_keys bow) \<and>
      (\<forall>k\<in>set (dict_keys bow). 0 \<le> k \<and> k < vocabulary_size self)"
    using h by (auto simp: list_all_iff histogram_ok_def)
  from document_frequency_spec[OF V this] obtain df where
    df: "document_frequency self (map t_bow ts) = Inr df"
        "length df = nat (vocabulary_size self)"
    by blast
  let ?idf = "map (\<lambda>d. ln ((real_of_int (int (length (map t_bow ts))) + 1) / (d + 1))) df"
  have "compute_idf self (map t_bow ts) = Inr (self\<lparr>idf_weights := Some ?idf\<rparr>)"
    using df(1) by (simp add: compute_idf_def)
  moreover have "int (length ?idf) = vocabulary_size self" using df(2) V by simp
  ultimately show ?thesis by blast
qed

lemma histogram_ok_idf_weights:
  "histogram_ok (self\<lparr>idf_weights := w\<rparr>) = histogram_ok self"
  by (rule ext) (simp add: histogram_ok_def descriptors_to_bow_def)

lemma tfidf_targets_ok:
  assumes idf: "idf_weights self = Some idf" "int (length idf) = vocabulary_size self"
    and ok: "list_all (target_ok L) ts" and h: "list_all (histogram_ok self) ts"
  shows "\<exists>ts3. tfidf_targets self ts = Inr ts3 \<and> map source ts3 = map source ts \<and>
           list_all (target_ok L) ts3 \<and> list_all (histogram_ok self) ts3 \<and>
           list_all (tfidf_ok self) ts3"
  using ok h
proof (induction ts)
  case Nil
  show ?case by (rule exI[of _ "[]"]) simp
next
  case (Cons t ts)
  have tk: "target_ok L t" and ok': "list_all (target_ok L) ts" using Cons.prems(1) by simp_all
  have hk: "histogram_ok self t" and h': "list_all (histogram_ok self) ts"
    using Cons.prems(2) by simp_all
  have nf: "num_features t \<noteq> 0"
    using tk by (cases "t_descriptors t") (simp_all add: target_ok_def)
  have keys: "\<forall>k\<in>set (dict_keys (t_bow t)). \<exists>v. idf_lookup (idf_weights self) k = Inr v"
  proof
    fix k assume "k \<in> set (dict_keys (t_bow t))"
    with hk have "0 \<le> k" "k < vocabulary_size self"
      by (simp_all add: histogram_ok_def list_all_iff)
    then have "np_index (length idf) k = Some (nat k)"
      using idf(2) by (simp add: np_index_def)
    then show "\<exists>v. idf_lookup (idf_weights self) k = Inr v"
      by (simp add: idf_lookup_def idf(1))
  qed
  from tfidf_loop_total[OF nf keys, of "[]"] obtain tfidf where
    tl: "tfidf_loop (idf_weights self) (num_features t) (t_bow t) [] = Inr tfidf" by blast
  have d: "distinct (dict_keys (t_bow t))" using hk by (simp add: histogram_ok_def)
  from tfidf_loop_result[OF tl d] obtain ys where
    "tfidf = [] @ ys" "list_all2 (weighted (idf_weights self) (num_features t)) (t_bow t) ys"
    by (auto simp: dict_keys_def)
  then have wt: "list_all2 (weighted (idf_weights self) (num_features t)) (t_bow t) tfidf"
    by simp
  have ct: "compute_tfidf_vector self (t_bow t) (num_features t) = Inr tfidf"
    using tl by (simp add: compute_tfidf_vector_def)
  from Cons.IH[OF ok' h'] obtain ts3 where r:
    "tfidf_targets self ts = Inr ts3" "map source ts3 = map source ts"
    "list_all (target_ok L) ts3" "list_all (histogram_ok self) ts3"
    "list_all (tfidf_ok self) ts3"
    by blast
  let ?t3 = "t\<lparr>bow_tfidf := tfidf\<rparr>"
  have r1: "tfidf_targets self (t # ts) = Inr (?t3 # ts3)" using ct r(1) by simp
  have r2: "map source (?t3 # ts3) = map source (t # ts)" using r(2) by simp
  have "target_ok L ?t3" using tk by (simp add: target_ok_def)
  then have r3: "list_all (target_ok L) (?t3 # ts3)" using r(3) by simp
  have "histogram_ok self ?t3" using hk by (simp add: histogram_ok_def)
  then have r4: "list_all (histogram_ok self) (?t3 # ts3)" using r(4) by simp
  have "tfidf_ok self ?t3" using ct wt by (simp add: tfidf_ok_def)
  then have r5: "list_all (tfidf_ok self) (?t3 # ts3)" using r(5) by simp
  show ?case by (rule exI[of _ "?t3 # ts3"], intro conjI) (fact r1 r2 r3 r4 r5)+
qed

lemma process_targets_success:
  assumes budget: "1 \<le> max_features_per_target self"
    and V: "1 \<le> vocabulary_size self" and km: "kmeans_ok environ"
    and load: "\<forall>p\<in>set files. imread environ p \<noteq> None"
    and ok: "\<forall>p\<in>set files. image_ok environ L p"
    and some: "\<exists>p\<in>set files. has_features environ p"
  shows "\<exists>self' targets out2.
     process_targets environ self files = (skip_log environ files @ out2, Inr (self', targets)) \<and>
     map source targets = filter (has_features environ) files \<and>
     list_all (target_ok L) targets \<and> list_all (histogram_ok self') targets \<and>
     list_all (tfidf_ok self') targets \<and>
     (\<exists>idf. idf_weights self' = Some idf \<and> int (length idf) = vocabulary_size self')"
proof -
  from extract_loop_ok[OF budget load ok, of "[]" "[]" "[]"] obtain ts where e:
    "extract_loop environ self files [] [] [] =
       (skip_log environ files, Inr (map t_descriptors ts, ts))"
    "map source ts = filter (has_features environ) files"
    "list_all (target_ok L) ts"
    by auto
  have "filter (has_features environ) files \<noteq> []" using some by (simp add: filter_empty_conv)
  with e(2) have ne: "ts \<noteq> []" by auto
  from np_vstack_ok[OF ne e(3)] have v:
    "np_vstack (map t_descriptors ts) = Inr (concat (map t_descriptors ts))"
    "concat (map t_descriptors ts) \<noteq> []"
    "\<forall>d\<in>set (concat (map t_descriptors ts)). length d = L"
    by simp_all
  let ?pooled = "concat (map t_descriptors ts)"
  let ?out2 = "if int (length ?pooled) < vocabulary_size self
         then [FewerDescriptorsThanVocabulary (int (length ?pooled)) (vocabulary_size self),
               ReducingVocabularySize (int (length ?pooled))]
         else []"
  from build_vocabulary_ok[OF km V v(2,3)] obtain voc where b:
    "build_vocabulary environ self ?pooled =
       (?out2, Inr (self\<lparr>vocabulary_size := min (vocabulary_size self) (int (length ?pooled)),
                  vocabulary := Some voc\<rparr>))"
    "int (length voc) = min (vocabulary_size self) (int (length ?pooled))"
    "voc \<noteq> []" "\<forall>word\<in>set voc. length word = L"
    by blast
  let ?self2 = "self\<lparr>vocabulary_size := min (vocabulary_size self) (int (length ?pooled)),
                  vocabulary := Some voc\<rparr>"
  have voc2: "vocabulary ?self2 = Some voc" by simp
  have vs2: "vocabulary_size ?self2 = int (length voc)" using b(2) by simp
  from bow_targets_ok[OF voc2 b(3,4) vs2 e(3)] obtain ts2 where t2:
    "bow_targets ?self2 ts = Inr ts2" "map source ts2 = map source ts"
    "list_all (target_ok L) ts2" "list_all (histogram_ok ?self2) ts2"
    by blast
  have V2: "0 \<le> vocabulary_size ?self2" using vs2 by simp
  from compute_idf_ok[OF V2 t2(4)] obtain idf where i:
    "compute_idf ?self2 (map t_bow ts2) = Inr (?self2\<lparr>idf_weights := Some idf\<rparr>)"
    "int (length idf) = vocabulary_size ?self2"
    by blast
  let ?self3 = "?self2\<lparr>idf_weights := Some idf\<rparr>"
  have idf3: "idf_weights ?self3 = Some idf" by simp
  have len3: "int (length idf) = vocabulary_size ?self3" using i(2) by simp
  have h3: "list_all (histogram_ok ?self3) ts2"
    using t2(4) by (simp only: histogram_ok_idf_weights)
  from tfidf_targets_ok[OF idf3 len3 t2(3) h3] obtain ts3 where t3:
    "tfidf_targets ?self3 ts2 = Inr ts3" "map source ts3 = map source ts2"
    "list_all (target_ok L) ts3" "list_all (histogram_ok ?self3) ts3"
    "list_all (tfidf_ok ?self3) ts3"
    by blast
  have r: "process_targets environ self files =
      (skip_log environ files @ ?out2, Inr (?self3, ts3))"
    unfolding process_targets_def e(1) using ne v(1) b(1) t2(1) i(1) t3(1)
    by (simp del: min.absorb1 min.absorb2 min.absorb3 min.absorb4)
  have m: "map source ts3 = filter (has_features environ) files"
    using t3(2) t2(2) e(2) by simp
  have w: "\<exists>idf. idf_weights ?self3 = Some idf \<and> int (length idf) = vocabulary_size ?self3"
    using idf3 len3 by blast
  show ?thesis
    by (rule exI[of _ ?self3], rule exI[of _ ts3], rule exI[of _ ?out2], intro conjI)
      (fact r m t3(3) t3(4) t3(5) w)+
qed

lemma process_targets_no_features:
  assumes budget: "1 \<le> max_features_per_target self"
    and load: "\<forall>p\<in>set files. imread environ p \<noteq> None"
    and none: "\<forall>p\<in>set files. \<not> has_features environ p"
  shows "process_targets environ self files =
     (skip_log environ files,
      Inl (ValueError ''No features extracted from any target images''))"
proof -
  have ok: "\<forall>p\<in>set files. image_ok environ 0 p"
  proof
    fix p assume "p \<in> set files"
    with none have "\<not> has_features environ p" by simp
    then show "image_ok environ 0 p"
      by (auto simp: has_features_def image_ok_def split: option.splits prod.splits)
  qed
  from extract_loop_ok[OF budget load ok, of "[]" "[]" "[]"] obtain ts where e:
    "extract_loop environ self files [] [] [] =
       (skip_log environ files, Inr (map t_descriptors ts, ts))"
    "map source ts = filter (has_features environ) files"
    by auto
  have "filter (has_features environ) files = []" using none by (simp add: filter_empty_conv)
  with e(2) have "ts = []" by simp
  with e(1) show ?thesis by (simp add: process_targets_def)
qed

lemma process_targets_load_failure:
  assumes budget: "1 \<le> max_features_per_target self"
    and ok: "\<forall>q\<in>set files. image_ok environ L q"
    and fail: "\<exists>p\<in>set files. imread environ p = None"
  shows "\<exists>pre p post. files = pre @ p # post \<and> imread environ p = None \<and>
     (\<forall>q\<in>set pre. imread environ q \<noteq> None) \<and>
     process_targets environ self files =
       (skip_log environ pre, Inl (ValueError (''Failed to load image: '' @ p)))"
proof -
  from fail obtain pre p post where s:
    "files = pre @ p # post" "imread environ p = None"
    "\<forall>q\<in>set pre. \<not> imread environ q = None"
    using split_list_first_prop[of files "\<lambda>p. imread environ p = None"] by blast
  have okpre: "\<forall>q\<in>set pre. image_ok environ L q" using ok s(1) by simp
  have "extract_loop environ self (pre @ p # post) [] [] [] =
      ([] @ skip_log environ pre, Inl (ValueError (''Failed to load image: '' @ p)))"
    by (rule extract_loop_load_failure[OF budget s(3) okpre s(2)])
  then have "process_targets environ self files =
       (skip_log environ pre, Inl (ValueError (''Failed to load image: '' @ p)))"
    by (simp add: process_targets_def s(1))
  with s show ?thesis by blast
qed

lemma ex_extract_a: "extract_features ex_env (init_builder 10 3) ''a.png'' =
    ([], Inr ([(10, 10), (90, 90)], [[255], [0]], 0, Some ()))"
  by (simp add: extract_features_def ex_env_def select_best_features_def init_builder_def)

lemma ex_extract_b: "extract_features ex_env (init_builder 10 3) ''b.png'' =
    ([NoFeaturesFound ''b.png''], Inr ([], [], 1, None))"
  by (simp add: extract_features_def ex_env_def)

lemma ex_extract_c: "extract_features ex_env (init_builder 10 3) ''c.png'' =
    ([], Inr ([(50, 50)], [[255]], 2, Some ()))"
  by (simp add: extract_features_def ex_env_def select_best_features_def init_builder_def)

lemma ex_extract_missing: "extract_features ex_env (init_builder 10 3) ''missing.png'' =
    ([], Inl (ValueError ''Failed to load image: missing.png''))"
  by (simp add: extract_features_def ex_env_def)

lemma ex_bow_a: "descriptors_to_bow
     ((init_builder 10 3)\<lparr>vocabulary_size := 3, vocabulary := Some [[255], [0], [255]]\<rparr>)
     [[255], [0]] = Inr [(0, 1), (1, 1)]"
  by (simp add: descriptors_to_bow_def quantize_descriptor_def hamming_def np_xor_def
      int_from_bytes_big_def np_argmin_def count_ones.simps dict_set_def dict_get_def)

lemma ex_bow_c: "descriptors_to_bow
     ((init_builder 10 3)\<lparr>vocabulary_size := 3, vocabulary := Some [[255], [0], [255]]\<rparr>)
     [[255]] = Inr [(0, 1)]"
  by (simp add: descriptors_to_bow_def quantize_descriptor_def hamming_def np_xor_def
      int_from_bytes_big_def np_argmin_def count_ones.simps dict_set_def dict_get_def)

lemma ex_idf: "compute_idf
     ((init_builder 10 3)\<lparr>vocabulary_size := 3, vocabulary := Some [[255], [0], [255]]\<rparr>)
     [[(0, 1), (1, 1)], [(0, 1)]] =
   Inr ((init_builder 10 3)\<lparr>vocabulary_size := 3, vocabulary := Some [[255], [0], [255]],
          idf_weights := Some [0, ln (3 / 2), ln 3]\<rparr>)"
  by (simp add: compute_idf_def document_frequency_def np_zeros_def dict_keys_def
      df_increment_def np_index_def numeral_3_eq_3)

lemma ex_tfidf_a: "compute_tfidf_vector
     ((init_builder 10 3)\<lparr>vocabulary_size := 3, vocabulary := Some [[255], [0], [255]],
          idf_weights := Some [0, ln (3 / 2), ln 3]\<rparr>) [(0, 1), (1, 1)] 2 =
   Inr [(0, 0), (1, 1 / 2 * ln (3 / 2))]"
  by (simp add: compute_tfidf_vector_def idf_lookup_def np_index_def dict_set_def)

lemma ex_tfidf_c: "compute_tfidf_vector
     ((init_builder 10 3)\<lparr>vocabulary_size := 3, vocabulary := Some [[255], [0], [255]],
          idf_weights := Some [0, ln (3 / 2), ln 3]\<rparr>) [(0, 1)] 1 =
   Inr [(0, 0)]"
  by (simp add: compute_tfidf_vector_def idf_lookup_def np_index_def dict_set_def)

lemma process_targets_cases:
  assumes budget: "1 \<le> max_features_per_target self"
    and V: "1 \<le> vocabulary_size self" and km: "kmeans_ok environ"
    and ok: "\<forall>p\<in>set files. image_ok environ L p"
  shows "(\<exists>pre p post. files = pre @ p # post \<and> imread environ p = None \<and>
            process_targets environ self files =
              (skip_log environ pre, Inl (ValueError (''Failed to load image: '' @ p)))) \<or>
         ((\<forall>p\<in>set files. imread environ p \<noteq> None) \<and>
          (\<forall>p\<in>set files. \<not> has_features environ p) \<and>
          process_targets environ self files =
            (skip_log environ files,
             Inl (ValueError ''No features extracted from any target images''))) \<or>
         ((\<forall>p\<in>set files. imread environ p \<noteq> None) \<and>
          (\<exists>p\<in>set files. has_features environ p) \<and>
          (\<exists>self' targets out2.
             process_targets environ self files =
               (skip_log environ files @ out2, Inr (self', targets)) \<and>
             map source targets = filter (has_features environ) files \<and>
             list_all (target_ok L) targets \<and> list_all (histogram_ok self') targets \<and>
             list_all (tfidf_ok self') targets \<and>
             (\<exists>idf. idf_weights self' = Some idf \<and> int (length idf) = vocabulary_size self')))"
proof (cases "\<exists>p\<in>set files. imread environ p = None")
  case True
  from process_targets_load_failure[OF budget ok True] show ?thesis by blast
next
  case False
  then have load: "\<forall>p\<in>set files. imread environ p \<noteq> None" by simp
  show ?thesis
  proof (cases "\<exists>p\<in>set files. has_features environ p")
    case True
    from process_targets_success[OF budget V km load ok True] load True
    show ?thesis by blast
  next
    case False
    then have none: "\<forall>p\<in>set files. \<not> has_features environ p" by simp
    from process_targets_no_features[OF budget load none] load none
    show ?thesis by blast
  qed
qed

lemma weighted_map:
  assumes "list_all2 (weighted (Some ws) nf) bow ys"
    and "list_all (\<lambda>k. 0 \<le> k \<and> k < int (length ws)) (dict_keys bow)"
  shows "ys = map (\<lambda>(word, count).
                 (word, real_of_int count / real_of_int nf * ws ! nat word)) bow"
  using assms
proof (induction rule: list_all2_induct)
  case Nil
  then show ?case by simp
next
  case (Cons e bow r ys)
  obtain w c where e: "e = (w, c)" by (cases e)
  have k: "0 \<le> w" "w < int (length ws)" using Cons.prems by (simp_all add: e dict_keys_def)
  then have "idf_lookup (Some ws) w = Inr (ws ! nat w)"
    by (simp add: idf_lookup_def np_index_def)
  with Cons.hyps(1) have "r = (w, real_of_int c / real_of_int nf * ws ! nat w)"
    by (cases r) (simp add: weighted_def e)
  moreover have "list_all (\<lambda>k. 0 \<le> k \<and> k < int (length ws)) (dict_keys bow)"
    using Cons.prems by (simp add: dict_keys_def)
  ultimately show ?case using Cons.IH by (simp add: e)
qed

lemma ex_kmeans_ok: "kmeans_ok ex_env"
  unfolding kmeans_ok_def
proof (intro allI impI)
  fix n_clusters :: int and X :: "real list list" and m
  assume a: "1 \<le> n_clusters \<and> n_clusters \<le> int (length X) \<and> (\<forall>row\<in>set X. length row = m)"
  have "kmeans_fit ex_env n_clusters X = Inr (take (nat n_clusters) X)"
    by (simp add: ex_env_def)
  moreover have "int (length (take (nat n_clusters) X)) = n_clusters" using a by auto
  moreover have "\<forall>c\<in>set (take (nat n_clusters) X). length c = m"
    using a by (meson in_set_takeD)
  ultimately show "\<exists>centers. kmeans_fit ex_env n_clusters X = Inr centers \<and>
           int (length centers) = n_clusters \<and> (\<forall>c\<in>set centers. length c = m)"
    by blast
qed

lemma ex_image_ok: "\<forall>p\<in>set (''missing.png'' # ex_files). image_ok ex_env 1 p"
  by (simp add: ex_files_def image_ok_def ex_env_def)

lemma ex_has_features:
  "has_features ex_env ''a.png''" "\<not> has_features ex_env ''b.png''"
  "has_features ex_env ''c.png''" "\<not> has_features ex_env ''missing.png''"
  by (simp_all add: has_features_def ex_env_def)

lemma ex_process_targets:
  "process_targets ex_env (init_builder 10 3) ex_files =
     ([NoFeaturesFound ''b.png'', SkippingNoFeatures ''b.png'',
       FewerDescriptorsThanVocabulary 3 1000, ReducingVocabularySize 3],
      Inr ex_result)"
  by (simp add: process_targets_def ex_files_def ex_extract_a ex_extract_b ex_extract_c
      np_vstack_def ex_build3 ex_bow_a ex_bow_c ex_idf ex_tfidf_a ex_tfidf_c ex_result_def)

lemma ex_process_targets_missing:
  "process_targets ex_env (init_builder 10 3) [''a.png'', ''missing.png'', ''c.png''] =
     ([], Inl (ValueError ''Failed to load image: missing.png''))"
  by (simp add: process_targets_def ex_extract_a ex_extract_missing)

text \<open>
  Claim C7, as stated, fails for a failed image load: \<open>extract_features\<close> raises
  \<open>ValueError\<close>, \<open>process_targets\<close> does not catch it, and \<open>main\<close> reports it and exits
  with status 1. With the files \<open>a.png\<close>, \<open>missing.png\<close>, \<open>c.png\<close>, two images have
  usable features and the build aborts all the same.
\<close>

theorem process_targets_abort_counterexample:
  "has_features ex_env ''a.png'' \<and> has_features ex_env ''c.png'' \<and>
   imread ex_env ''missing.png'' = None \<and>
   process_targets ex_env (init_builder 10 3) [''a.png'', ''missing.png'', ''c.png''] =
     ([], Inl (ValueError ''Failed to load image: missing.png'')) \<and>
   main_build ex_env (init_builder 10 3) [''a.png'', ''missing.png'', ''c.png''] ''db.json'' =
     ([ErrorReport (ValueError ''Failed to load image: missing.png'')], 1)"
  by (simp add: ex_has_features ex_process_targets_missing main_build_def) (simp add: ex_env_def)

text \<open>
  Claim C7, amended. With well-behaved collaborators (see \<open>image_ok\<close> and \<open>kmeans_ok\<close>),
  a budget and a requested vocabulary size of at least 1, the build aborts with an error
  if and only if some image fails to load or no image produced usable features; the
  error is then the \<open>ValueError\<close> of the failed load, or the \<open>ValueError\<close> saying that no
  features were extracted; \<open>main\<close> prints the error and exits with status 1. An image
  with zero extracted features is logged and skipped and the build continues: when the
  build succeeds its targets are exactly the images with features, in order, and the
  output starts with the two warnings of every image without features.
\<close>

theorem process_targets_abort:
  assumes "1 \<le> max_features_per_target self" and "1 \<le> vocabulary_size self"
    and "kmeans_ok environ" and "\<forall>p\<in>set files. image_ok environ L p"
  shows "((\<exists>out e. process_targets environ self files = (out, Inl e)) \<longleftrightarrow>
            (\<exists>p\<in>set files. imread environ p = None) \<or>
            (\<forall>p\<in>set files. \<not> has_features environ p)) \<and>
         ((\<exists>p\<in>set files. imread environ p = None) \<longrightarrow>
            (\<exists>out p. p \<in> set files \<and> imread environ p = None \<and>
               process_targets environ self files =
                 (out, Inl (ValueError (''Failed to load image: '' @ p))))) \<and>
         ((\<forall>p\<in>set files. imread environ p \<noteq> None) \<and>
          (\<forall>p\<in>set files. \<not> has_features environ p) \<longrightarrow>
            process_targets environ self files =
              (skip_log environ files,
               Inl (ValueError ''No features extracted from any target images''))) \<and>
         (\<forall>out e. process_targets environ self files = (out, Inl e) \<longrightarrow>
            main_build environ self files output_path = (out @ [ErrorReport e], 1)) \<and>
         (\<forall>out self' targets.
            process_targets environ self files = (out, Inr (self', targets)) \<longrightarrow>
            map source targets = filter (has_features environ) files \<and>
            (\<exists>out2. out = skip_log environ files @ out2))"
proof -
  let ?fail = "\<exists>p\<in>set files. imread environ p = None"
  let ?none = "\<forall>p\<in>set files. \<not> has_features environ p"
  have main: "\<forall>out e. process_targets environ self files = (out, Inl e) \<longrightarrow>
            main_build environ self files output_path = (out @ [ErrorReport e], 1)"
    by (simp add: main_build_def)
  from process_targets_cases[OF assms]
  consider
    (load) pre p post where "files = pre @ p # post" "imread environ p = None"
      "process_targets environ self files =
         (skip_log environ pre, Inl (ValueError (''Failed to load image: '' @ p)))"
  | (none) "\<forall>p\<in>set files. imread environ p \<noteq> None" "?none"
      "process_targets environ self files =
         (skip_log environ files,
          Inl (ValueError ''No features extracted from any target images''))"
  | (ok) self' targets out2 where "\<forall>p\<in>set files. imread environ p \<noteq> None"
      "\<exists>p\<in>set files. has_features environ p"
      "process_targets environ self files =
         (skip_log environ files @ out2, Inr (self', targets))"
      "map source targets = filter (has_features environ) files"
    by blast
  then show ?thesis
  proof cases
    case load
    have f: "?fail" using load(1,2) by auto
    have a: "(\<exists>out e. process_targets environ self files = (out, Inl e)) \<longleftrightarrow> ?fail \<or> ?none"
      using f load(3) by blast
    have b: "?fail \<longrightarrow> (\<exists>out p. p \<in> set files \<and> imread environ p = None \<and>
               process_targets environ self files =
                 (out, Inl (ValueError (''Failed to load image: '' @ p))))"
      using load by auto
    have c: "(\<forall>p\<in>set files. imread environ p \<noteq> None) \<and> ?none \<longrightarrow>
            process_targets environ self files =
              (skip_log environ files,
               Inl (ValueError ''No features extracted from any target images''))"
      using f by blast
    have d: "\<forall>out self' targets.
            process_targets environ self files = (out, Inr (self', targets)) \<longrightarrow>
            map source targets = filter (has_features environ) files \<and>
            (\<exists>out2. out = skip_log environ files @ out2)"
      using load(3) by simp
    from a b c main d show ?thesis by (intro conjI)
  next
    case none
    have a: "(\<exists>out e. process_targets environ self files = (out, Inl e)) \<longleftrightarrow> ?fail \<or> ?none"
      using none(2,3) by blast
    have b: "?fail \<longrightarrow> (\<exists>out p. p \<in> set files \<and> imread environ p = None \<and>
               process_targets environ self files =
                 (out, Inl (ValueError (''Failed to load image: '' @ p))))"
      using none(1) by blast
    have c: "(\<forall>p\<in>set files. imread environ p \<noteq> None) \<and> ?none \<longrightarrow>
            process_targets environ self files =
              (skip_log environ files,
               Inl (ValueError ''No features extracted from any target images''))"
      using none(3) by blast
    have d: "\<forall>out self' targets.
            process_targets environ self files = (out, Inr (self', targets)) \<longrightarrow>
            map source targets = filter (has_features environ) files \<and>
            (\<exists>out2. out = skip_log environ files @ out2)"
      using none(3) by simp
    from a b c main d show ?thesis by (intro conjI)
  next
    case ok
    have nf: "\<not> ?fail" using ok(1) by blast
    have nn: "\<not> ?none" using ok(2) by blast
    have a: "(\<exists>out e. process_targets environ self files = (out, Inl e)) \<longleftrightarrow> ?fail \<or> ?none"
      using nf nn ok(3) by simp
    have b: "?fail \<longrightarrow> (\<exists>out p. p \<in> set files \<and> imread environ p = None \<and>
               process_targets environ self files =
                 (out, Inl (ValueError (''Failed to load image: '' @ p))))"
      using nf by blast
    have c: "(\<forall>p\<in>set files. imread environ p \<noteq> None) \<and> ?none \<longrightarrow>
            process_targets environ self files =
              (skip_log environ files,
               Inl (ValueError ''No features extracted from any target images''))"
      using nn by blast
    have d: "\<forall>out self' targets.
            process_targets environ self files = (out, Inr (self', targets)) \<longrightarrow>
            map source targets = filter (has_features environ) files \<and>
            (\<exists>out2. out = skip_log environ files @ out2)"
      using ok(3,4) by simp
    from a b c main d show ?thesis by (intro conjI)
  qed
qed

theorem process_targets_abort_witness:
  "process_targets ex_env (init_builder 10 3) ex_files =
     ([NoFeaturesFound ''b.png'', SkippingNoFeatures ''b.png'',
       FewerDescriptorsThanVocabulary 3 1000, ReducingVocabularySize 3], Inr ex_result) \<and>
   map source (snd ex_result) = [''a.png'', ''c.png''] \<and>
   filter (has_features ex_env) ex_files = [''a.png'', ''c.png''] \<and>
   skip_log ex_env ex_files = [NoFeaturesFound ''b.png'', SkippingNoFeatures ''b.png''] \<and>
   process_targets ex_env (init_builder 10 3) [''b.png''] =
     ([NoFeaturesFound ''b.png'', SkippingNoFeatures ''b.png''],
      Inl (ValueError ''No features extracted from any target images''))"
proof -
  have ok: "\<forall>p\<in>set ex_files. image_ok ex_env 1 p" using ex_image_ok by simp
  have ok': "\<forall>p\<in>set [''b.png'']. image_ok ex_env 1 p" using ex_image_ok
    by (simp add: ex_files_def)
  have a: "filter (has_features ex_env) ex_files = [''a.png'', ''c.png'']"
    by (simp add: ex_files_def ex_has_features)
  have b: "skip_log ex_env ex_files = [NoFeaturesFound ''b.png'', SkippingNoFeatures ''b.png'']"
    by (simp add: skip_log_def ex_files_def ex_has_features)
  have c: "map source (snd ex_result) = [''a.png'', ''c.png'']"
    by (simp add: ex_result_def)
  have l: "\<forall>p\<in>set [''b.png'']. imread ex_env p \<noteq> None" by (simp add: ex_env_def)
  have n: "\<forall>p\<in>set [''b.png'']. \<not> has_features ex_env p" by (simp add: ex_has_features)
  have s: "skip_log ex_env [''b.png''] = [NoFeaturesFound ''b.png'', SkippingNoFeatures ''b.png'']"
    by (simp add: skip_log_def ex_has_features)
  from process_targets_abort[OF ex_builder ex_kmeans_ok ok', of "''db.json''"] l n
  have d: "process_targets ex_env (init_builder 10 3) [''b.png''] =
     (skip_log ex_env [''b.png''],
      Inl (ValueError ''No features extracted from any target images''))"
    by blast
  from process_targets_abort[OF ex_builder ex_kmeans_ok ok, of "''db.json''"]
  have "\<forall>out self' targets.
      process_targets ex_env (init_builder 10 3) ex_files = (out, Inr (self', targets)) \<longrightarrow>
      map source targets = filter (has_features ex_env) ex_files"
    by blast
  with ex_process_targets a b c d s show ?thesis by simp
qed

text \<open>
  Claim C5. For every target of a successful build (same conditions), \<open>num_features\<close> is
  the number of budgeted keypoints, which is the number of budgeted descriptors; the
  histogram is what \<open>descriptors_to_bow\<close> returns for those descriptors and its counts
  sum to \<open>num_features\<close>; and \<open>compute_tfidf_vector\<close> maps each \<open>(word, count)\<close> entry
  of the histogram to the weight \<open>count / num_features * idf[word]\<close>.
\<close>

theorem tfidf_weights_and_denominator:
  assumes "1 \<le> max_features_per_target self" and "1 \<le> vocabulary_size self"
    and "kmeans_ok environ" and "\<forall>p\<in>set files. image_ok environ L p"
    and "process_targets environ self files = (out, Inr (self', targets))"
    and "t \<in> set targets"
  shows "num_features t = int (length (t_keypoints t)) \<and>
     num_features t = int (length (t_descriptors t)) \<and>
     descriptors_to_bow self' (t_descriptors t) = Inr (t_bow t) \<and>
     sum_list (map snd (t_bow t)) = num_features t \<and>
     compute_tfidf_vector self' (t_bow t) (num_features t) = Inr (bow_tfidf t) \<and>
     (\<exists>ws. idf_weights self' = Some ws \<and>
        bow_tfidf t =
          map (\<lambda>(word, count).
                 (word, real_of_int count / real_of_int (num_features t) * ws ! nat word))
              (t_bow t))"
proof -
  from process_targets_cases[OF assms(1,2,3,4)] assms(5)
  obtain idf where r:
    "list_all (target_ok L) targets" "list_all (histogram_ok self') targets"
    "list_all (tfidf_ok self') targets"
    "idf_weights self' = Some idf" "int (length idf) = vocabulary_size self'"
    by auto
  have tk: "target_ok L t" using r(1) assms(6) by (simp add: list_all_iff)
  have hk: "histogram_ok self' t" using r(2) assms(6) by (simp add: list_all_iff)
  have fk: "tfidf_ok self' t" using r(3) assms(6) by (simp add: list_all_iff)
  have n1: "num_features t = int (length (t_keypoints t))"
    and n2: "num_features t = int (length (t_descriptors t))"
    using tk by (simp_all add: target_ok_def)
  have b: "descriptors_to_bow self' (t_descriptors t) = Inr (t_bow t)"
    and s: "sum_list (map snd (t_bow t)) = num_features t"
    using hk by (simp_all add: histogram_ok_def)
  have c: "compute_tfidf_vector self' (t_bow t) (num_features t) = Inr (bow_tfidf t)"
    using fk by (simp add: tfidf_ok_def)
  have w: "list_all2 (weighted (Some idf) (num_features t)) (t_bow t) (bow_tfidf t)"
    using fk r(4) by (simp add: tfidf_ok_def)
  have k: "list_all (\<lambda>k. 0 \<le> k \<and> k < int (length idf)) (dict_keys (t_bow t))"
    using hk r(5) by (simp add: histogram_ok_def)
  have m: "\<exists>ws. idf_weights self' = Some ws \<and>
        bow_tfidf t =
          map (\<lambda>(word, count).
                 (word, real_of_int count / real_of_int (num_features t) * ws ! nat word))
              (t_bow t)"
    using r(4) weighted_map[OF w k] by blast
  from n1 n2 b s c m show ?thesis by (intro conjI)
qed

theorem tfidf_weights_and_denominator_witness:
  "process_targets ex_env (init_builder 10 3) ex_files =
     ([NoFeaturesFound ''b.png'', SkippingNoFeatures ''b.png'',
       FewerDescriptorsThanVocabulary 3 1000, ReducingVocabularySize 3], Inr ex_result) \<and>
   num_features (hd (snd ex_result)) = 2 \<and>
   length (t_descriptors (hd (snd ex_result))) = 2 \<and>
   t_bow (hd (snd ex_result)) = [(0, 1), (1, 1)] \<and>
   sum_list (map snd (t_bow (hd (snd ex_result)))) = 2 \<and>
   idf_weights (fst ex_result) = Some [0, ln (3 / 2), ln 3] \<and>
   bow_tfidf (hd (snd ex_result)) = [(0, 0), (1, 1 / 2 * ln (3 / 2))]"
proof -
  have ok: "\<forall>p\<in>set ex_files. image_ok ex_env 1 p" using ex_image_ok by simp
  have r: "process_targets ex_env (init_builder 10 3) ex_files =
     ([NoFeaturesFound ''b.png'', SkippingNoFeatures ''b.png'',
       FewerDescriptorsThanVocabulary 3 1000, ReducingVocabularySize 3],
      Inr (fst ex_result, snd ex_result))"
    using ex_process_targets by simp
  have t: "hd (snd ex_result) \<in> set (snd ex_result)" by (simp add: ex_result_def)
  from tfidf_weights_and_denominator[OF ex_builder ex_kmeans_ok ok r t]
  have "sum_list (map snd (t_bow (hd (snd ex_result)))) = num_features (hd (snd ex_result))"
    by blast
  moreover have "num_features (hd (snd ex_result)) = 2"
    "length (t_descriptors (hd (snd ex_result))) = 2"
    "t_bow (hd (snd ex_result)) = [(0, 1), (1, 1)]"
    "idf_weights (fst ex_result) = Some [0, ln (3 / 2), ln 3]"
    "bow_tfidf (hd (snd ex_result)) = [(0, 0), (1, 1 / 2 * ln (3 / 2))]"
    by (simp_all add: ex_result_def)
  ultimately show ?thesis using ex_process_targets by simp
qed

end
